theory Spec2Isabelle
  imports Complex_Main
begin

section \<open>Data model of \<open>connect4_gym.py\<close>\<close>

text \<open>
  The board \<open>self._board\<close> is a numpy array of shape \<open>(rows, columns)\<close> and dtype
  \<open>int8\<close>; only the values \<open>0\<close> (empty), \<open>1\<close> (agent) and \<open>-1\<close> (opponent) are ever
  stored, so a cell is an \<open>int\<close>. The array is a list of rows, row \<open>0\<close> the bottom one.
  An observation is the pair of boolean planes that \<open>np.stack\<close> puts together (the cast to
  \<open>float32\<close> maps \<open>True\<close> to \<open>1.0\<close> and \<open>False\<close> to \<open>0.0\<close>).
\<close>

type_synonym grid = "int list list"
type_synonym observation = "bool list list \<times> bool list list"

text \<open>
  The opponent is a callable taking the observation and the action mask and returning a
  column. It may keep state of its own between calls, so a call yields the column and the
  callable as it is afterwards.
\<close>

codatatype policy = Policy (call: "observation \<Rightarrow> bool list \<Rightarrow> int \<times> policy")

text \<open>
  The exceptions of the module: \<open>ValueError("invalid action")\<close>,
  \<open>ValueError("invalid move")\<close>, \<open>ValueError("invalid opponent move: <column>")\<close>, and the
  \<open>IndexError\<close> numpy raises for an index outside an axis.
\<close>

datatype error = InvalidAction | InvalidMove | InvalidOpponentMove int | IndexError

text \<open>
  The attributes of a \<open>Connect4\<close> object. \<open>rows\<close>, \<open>columns\<close> and \<open>win_length\<close> are set by
  \<open>__init__\<close>; \<open>opponent\<close>, \<open>board\<close> and \<open>num_moves\<close> (the source's \<open>_opponent\<close>, \<open>_board\<close>,
  \<open>_num_moves\<close>) by \<open>reset\<close>. Rendering only prints and is left out.
\<close>

record connect4 =
  rows :: nat
  columns :: nat
  win_length :: int
  opponent :: policy
  board :: grid
  num_moves :: int

text \<open>What \<open>step\<close> returns; its fifth component, \<open>info\<close>, is always the empty dict.\<close>

record step_result =
  obs :: observation
  reward :: real
  terminated :: bool
  truncated :: bool

subsection \<open>numpy indexing\<close>

text \<open>
  An integer index \<open>i\<close> into an axis of size \<open>n\<close>: \<open>0 \<le> i < n\<close> is itself, \<open>-n \<le> i < 0\<close>
  counts from the end, anything else raises \<open>IndexError\<close> (\<open>None\<close> here).
\<close>

definition np_index :: "nat \<Rightarrow> int \<Rightarrow> nat option" where
  "np_index n i =
     (if 0 \<le> i \<and> i < int n then Some (nat i)
      else if - int n \<le> i \<and> i < 0 then Some (nat (int n + i))
      else None)"

text \<open>The size of the second axis, read off the first row.\<close>

definition ncols :: "grid \<Rightarrow> nat" where
  "ncols b = (case b of [] \<Rightarrow> 0 | r # _ \<Rightarrow> length r)"

text \<open>\<open>b[r, c]\<close> as a position: the resolved row and column, or \<open>None\<close> for \<open>IndexError\<close>.\<close>

definition locate :: "grid \<Rightarrow> int \<Rightarrow> int \<Rightarrow> (nat \<times> nat) option" where
  "locate b r c =
     (case np_index (length b) r of
        None \<Rightarrow> None
      | Some i \<Rightarrow> (case np_index (length (b ! i)) c of
                    None \<Rightarrow> None
                  | Some j \<Rightarrow> Some (i, j)))"

definition getitem :: "grid \<Rightarrow> int \<Rightarrow> int \<Rightarrow> int option" where
  "getitem b r c = (case locate b r c of None \<Rightarrow> None | Some (i, j) \<Rightarrow> Some (b ! i ! j))"

definition setitem :: "grid \<Rightarrow> nat \<Rightarrow> nat \<Rightarrow> int \<Rightarrow> grid" where
  "setitem b i j v = b[i := (b ! i)[j := v]]"

text \<open>\<open>gym.spaces.Discrete(n).contains(x)\<close> for an integer \<open>x\<close>.\<close>

definition contains :: "nat \<Rightarrow> int \<Rightarrow> bool" where
  "contains n x = (0 \<le> x \<and> x < int n)"

section \<open>The operations\<close>

subsection \<open>\<open>action_masks\<close> and \<open>_get_observation\<close>\<close>

text \<open>
  \<open>self._board[-1] == 0\<close>. Neither this method nor \<open>_get_observation\<close> assigns to an
  attribute or to a cell: both build new arrays, so they are functions of the state.
\<close>

definition action_masks :: "connect4 \<Rightarrow> error + bool list" where
  "action_masks e =
     (case np_index (length (board e)) (- 1) of
        None \<Rightarrow> Inl IndexError
      | Some i \<Rightarrow> Inr (map (\<lambda>p. p = 0) (board e ! i)))"

definition get_observation :: "connect4 \<Rightarrow> int \<Rightarrow> observation" where
  "get_observation e player =
     (map (map (\<lambda>p. p = player)) (board e), map (map (\<lambda>p. p = - player)) (board e))"

subsection \<open>\<open>_move\<close>\<close>

text \<open>
  \<open>_num_moves\<close> is incremented first; then the loop \<open>for row in range(self.rows)\<close> looks
  for the first empty cell of the column. \<open>move_loop\<close> is the loop from \<open>row\<close> on.
\<close>

function move_loop :: "connect4 \<Rightarrow> int \<Rightarrow> int \<Rightarrow> nat \<Rightarrow> (error + nat) \<times> connect4" where
  "move_loop e column piece row =
     (if row < rows e then
        (case locate (board e) (int row) column of
           None \<Rightarrow> (Inl IndexError, e)
         | Some (i, j) \<Rightarrow>
             if board e ! i ! j = 0
             then (Inr row, e\<lparr>board := setitem (board e) i j piece\<rparr>)
             else move_loop e column piece (Suc row))
      else (Inl InvalidMove, e))"
  by pat_completeness auto
termination
  by (relation "measure (\<lambda>(e, column, piece, row). rows e - row)") auto

definition move :: "connect4 \<Rightarrow> int \<Rightarrow> int \<Rightarrow> (error + nat) \<times> connect4" where
  "move e column piece = move_loop (e\<lparr>num_moves := num_moves e + 1\<rparr>) column piece 0"

subsection \<open>\<open>_opponent_move\<close>\<close>

definition opponent_move :: "connect4 \<Rightarrow> (error + nat \<times> int) \<times> connect4" where
  "opponent_move e =
     (case action_masks e of
        Inl err \<Rightarrow> (Inl err, e)
      | Inr legal \<Rightarrow>
          (case call (opponent e) (get_observation e (- 1)) legal of
             (column, opp') \<Rightarrow>
               let e1 = e\<lparr>opponent := opp'\<rparr> in
               if \<not> contains (columns e1) column then (Inl (InvalidOpponentMove column), e1)
               else (case getitem (board e1) (- 1) column of
                       None \<Rightarrow> (Inl IndexError, e1)
                     | Some top_cell \<Rightarrow>
                         if top_cell \<noteq> 0 then (Inl (InvalidOpponentMove column), e1)
                         else (case move e1 column (- 1) of
                                 (Inl err, e2) \<Rightarrow> (Inl err, e2)
                               | (Inr row, e2) \<Rightarrow> (Inr (row, column), e2)))))"

subsection \<open>\<open>_line_length\<close> and \<open>_is_win\<close>\<close>

text \<open>The loop of \<open>_line_length\<close> over \<open>line[1:]\<close>, with the counter \<open>length\<close>.\<close>

fun line_loop :: "int \<Rightarrow> int list \<Rightarrow> int \<Rightarrow> int" where
  "line_loop first [] n = n"
| "line_loop first (piece # rest) n =
     (if piece = first then line_loop first rest (n + 1) else n)"

text \<open>On an empty line the loop body never runs and \<open>line[0]\<close> is never read.\<close>

definition line_length :: "int list \<Rightarrow> int" where
  "line_length line = (case line of [] \<Rightarrow> 0 | first # rest \<Rightarrow> line_loop first rest 0)"

text \<open>
  The slices of \<open>_is_win\<close>. A slice start beyond the axis is clipped, which \<open>take\<close> and
  \<open>drop\<close> do as well.
  \<^item> \<open>a[row::-1]\<close> is \<open>rev (take (row + 1) a)\<close>, \<open>a[row:]\<close> is \<open>drop row a\<close>;
  \<^item> \<open>diagonal\<close> of a two-dimensional view \<open>m\<close> is \<open>m[0,0], m[1,1], ...\<close>.
\<close>

definition down_from :: "nat \<Rightarrow> 'a list \<Rightarrow> 'a list" where
  "down_from i a = rev (take (Suc i) a)"

definition diagonal :: "grid \<Rightarrow> int list" where
  "diagonal m = map (\<lambda>i. m ! i ! i) [0..<min (length m) (ncols m)]"

text \<open>
  \<open>_is_win(row, column)\<close>, the four disjuncts in the source's order (\<open>or\<close> stops at the
  first true one). The first disjunct indexes the second axis with \<open>column\<close>, the second
  one the first axis with \<open>row\<close>: out of range they raise \<open>IndexError\<close>. The callers pass
  the row \<open>_move\<close> returned and a column that passed \<open>contains\<close>, so both are naturals.
\<close>

definition is_win :: "connect4 \<Rightarrow> nat \<Rightarrow> nat \<Rightarrow> error + bool" where
  "is_win e row column =
     (let b = board e in
      if \<not> column < ncols b then Inl IndexError
      else if line_length (map (\<lambda>r. r ! column) (down_from row b)) + 1 \<ge> win_length e
        then Inr True
      else if \<not> row < length b then Inl IndexError
      else Inr
        (line_length (down_from column (b ! row)) + line_length (drop column (b ! row)) + 1
           \<ge> win_length e
         \<or> line_length (diagonal (map (drop column) (drop row b)))
           + line_length (diagonal (map (down_from column) (down_from row b))) + 1
           \<ge> win_length e
         \<or> line_length (diagonal (map (down_from column) (drop row b)))
           + line_length (diagonal (map (drop column) (down_from row b))) + 1
           \<ge> win_length e))"

subsection \<open>\<open>step\<close> and \<open>reset\<close>\<close>

definition result :: "connect4 \<Rightarrow> real \<Rightarrow> bool \<Rightarrow> step_result" where
  "result e r t = \<lparr>obs = get_observation e 1, reward = r, terminated = t, truncated = False\<rparr>"

definition step :: "connect4 \<Rightarrow> int \<Rightarrow> (error + step_result) \<times> connect4" where
  "step e action =
     (if \<not> contains (columns e) action then (Inl InvalidAction, e)
      else (case getitem (board e) (- 1) action of
        None \<Rightarrow> (Inl IndexError, e)
      | Some top_cell \<Rightarrow>
          if top_cell \<noteq> 0 then (Inl InvalidAction, e)
          else (case move e action 1 of
            (Inl err, e1) \<Rightarrow> (Inl err, e1)
          | (Inr row, e1) \<Rightarrow>
              (case is_win e1 row (nat action) of
                 Inl err \<Rightarrow> (Inl err, e1)
               | Inr True \<Rightarrow> (Inr (result e1 1 True), e1)
               | Inr False \<Rightarrow>
                   if num_moves e1 = int (rows e1) * int (columns e1)
                   then (Inr (result e1 0 True), e1)
                   else (case opponent_move e1 of
                     (Inl err, e2) \<Rightarrow> (Inl err, e2)
                   | (Inr (opponent_row, opponent_column), e2) \<Rightarrow>
                       (case is_win e2 opponent_row (nat opponent_column) of
                          Inl err \<Rightarrow> (Inl err, e2)
                        | Inr True \<Rightarrow> (Inr (result e2 (- 1) True), e2)
                        | Inr False \<Rightarrow>
                            if num_moves e2 = int (rows e2) * int (columns e2)
                            then (Inr (result e2 0 True), e2)
                            else (Inr (result e2 0 False), e2)))))))"

text \<open>
  \<open>reset\<close>: \<open>opp\<close> is what the factory \<open>self.get_opponent()\<close> returned, \<open>coin\<close> what
  \<open>self.np_random.choice([True, False])\<close> drew. The fields \<open>opponent\<close>, \<open>board\<close> and
  \<open>num_moves\<close> of the object it is called on are overwritten. With \<open>return_info\<close> the
  observation comes paired with an empty dict, which is left out.
\<close>

definition reset :: "connect4 \<Rightarrow> policy \<Rightarrow> bool \<Rightarrow> (error + observation) \<times> connect4" where
  "reset e opp coin =
     (let e1 = e\<lparr>opponent := opp,
                 board := replicate (rows e) (replicate (columns e) 0),
                 num_moves := 0\<rparr> in
      if coin then
        (case opponent_move e1 of
           (Inl err, e2) \<Rightarrow> (Inl err, e2)
         | (Inr _, e2) \<Rightarrow> (Inr (get_observation e2 1), e2))
      else (Inr (get_observation e1 1), e1))"

section \<open>Predicates for stating the properties\<close>

text \<open>
  A well-formed grid: \<open>rows\<close> rows of \<open>columns\<close> cells each, which is what
  \<open>np.zeros((self.rows, self.columns))\<close> builds and every assignment to a cell keeps.
\<close>

definition grid_ok :: "connect4 \<Rightarrow> bool" where
  "grid_ok e = (length (board e) = rows e \<and> (\<forall>r \<in> set (board e). length r = columns e))"

text \<open>The number of non-empty cells, and whether every cell is \<open>0\<close>, \<open>1\<close> or \<open>-1\<close>.\<close>

definition occupied :: "grid \<Rightarrow> nat" where
  "occupied b = sum_list (map (\<lambda>r. length (filter (\<lambda>p. p \<noteq> 0) r)) b)"

definition pieces_ok :: "grid \<Rightarrow> bool" where
  "pieces_ok b = (\<forall>r \<in> set b. \<forall>p \<in> set r. p = 0 \<or> p = 1 \<or> p = - 1)"

definition board_full :: "grid \<Rightarrow> bool" where
  "board_full b = (\<forall>r \<in> set b. 0 \<notin> set r)"

text \<open>Gravity: in no column is there a piece above an empty cell.\<close>

definition settled :: "connect4 \<Rightarrow> bool" where
  "settled e =
     (\<forall>c<columns e. \<forall>r<rows e. board e ! r ! c = 0 \<longrightarrow>
        (\<forall>r'. r < r' \<and> r' < rows e \<longrightarrow> board e ! r' ! c = 0))"

text \<open>The invariant of the states between calls.\<close>

definition state_ok :: "connect4 \<Rightarrow> bool" where
  "state_ok e =
     (grid_ok e \<and> pieces_ok (board e) \<and> int (occupied (board e)) = num_moves e \<and> settled e)"

text \<open>The state after a piece has been dropped at \<open>(r, c)\<close>, and the lowest empty row of a column.\<close>

definition drop_at :: "connect4 \<Rightarrow> nat \<Rightarrow> nat \<Rightarrow> int \<Rightarrow> connect4" where
  "drop_at e r c piece = e\<lparr>num_moves := num_moves e + 1, board := setitem (board e) r c piece\<rparr>"

definition lowest_empty_row :: "connect4 \<Rightarrow> nat \<Rightarrow> nat \<Rightarrow> bool" where
  "lowest_empty_row e c r = (r < rows e \<and> board e ! r ! c = 0 \<and> (\<forall>r'<r. board e ! r' ! c \<noteq> 0))"

text \<open>
  The lines of \<open>step\<close> after the agent's \<open>_move\<close>, for the state \<open>e1\<close> the move left and the
  value \<open>w\<close> of the first \<open>_is_win\<close>.
\<close>

definition after_agent :: "connect4 \<Rightarrow> bool \<Rightarrow> (error + step_result) \<times> connect4" where
  "after_agent e1 w =
     (if w then (Inr (result e1 1 True), e1)
      else if num_moves e1 = int (rows e1) * int (columns e1) then (Inr (result e1 0 True), e1)
      else (case opponent_move e1 of
              (Inl err, e2) \<Rightarrow> (Inl err, e2)
            | (Inr (opponent_row, opponent_column), e2) \<Rightarrow>
                (case is_win e2 opponent_row (nat opponent_column) of
                   Inl err \<Rightarrow> (Inl err, e2)
                 | Inr True \<Rightarrow> (Inr (result e2 (- 1) True), e2)
                 | Inr False \<Rightarrow>
                     if num_moves e2 = int (rows e2) * int (columns e2)
                     then (Inr (result e2 0 True), e2)
                     else (Inr (result e2 0 False), e2))))"

text \<open>
  The states an object can be in between calls of its public methods: \<open>reset\<close> on an object
  in any state, then any number of \<open>step\<close> calls, each from the state the previous call
  left behind, whether it returned or raised. (\<open>action_masks\<close> and the observation change
  nothing.)
\<close>

inductive reachable :: "connect4 \<Rightarrow> bool" where
  reach_reset: "reachable (snd (reset e opp coin))"
| reach_step: "reachable e \<Longrightarrow> reachable (snd (step e action))"

text \<open>The number of true cells of an observation plane.\<close>

definition count_true :: "bool list list \<Rightarrow> nat" where
  "count_true plane = sum_list (map (\<lambda>r. length (filter (\<lambda>x. x) r)) plane)"

text \<open>The state \<open>reset\<close> builds before the coin is looked at.\<close>

definition cleared :: "connect4 \<Rightarrow> policy \<Rightarrow> connect4" where
  "cleared e opp =
     e\<lparr>opponent := opp, board := replicate (rows e) (replicate (columns e) 0), num_moves := 0\<rparr>"

subsection \<open>The full-board rescan\<close>

text \<open>
  The cell \<open>(i, j)\<close> of the grid for integer coordinates, \<open>None\<close> off the board (no
  wrap-around).
\<close>

definition cell_at :: "grid \<Rightarrow> int \<Rightarrow> int \<Rightarrow> int option" where
  "cell_at b i j =
     (if 0 \<le> i \<and> i < int (length b) \<and> 0 \<le> j \<and> j < int (length (b ! nat i))
      then Some (b ! nat i ! nat j) else None)"

text \<open>
  Following the spec's words: a contiguous run of cells of the board, \<open>lo\<close> cells before
  and \<open>hi\<close> cells after \<open>(r, c)\<close> along the axis \<open>d\<close>, of length at least \<open>win_length\<close>, all
  holding the value of the cell \<open>(r, c)\<close>; and the rescan over the four axes: vertical
  \<open>(1, 0)\<close>, horizontal \<open>(0, 1)\<close> and the diagonals \<open>(1, 1)\<close> and \<open>(1, -1)\<close>. The search for
  \<open>lo\<close> and \<open>hi\<close> stops at \<open>rows + columns\<close>, beyond which no segment stays on the board
  (\<open>run_through_unbounded\<close> below).
\<close>

definition run_through :: "connect4 \<Rightarrow> nat \<Rightarrow> nat \<Rightarrow> int \<times> int \<Rightarrow> bool" where
  "run_through e r c d =
     (\<exists>lo \<in> {..rows e + columns e}. \<exists>hi \<in> {..rows e + columns e}.
        win_length e \<le> int lo + int hi + 1
        \<and> (\<forall>k \<in> {- int lo..int hi}.
              cell_at (board e) (int r + k * fst d) (int c + k * snd d) = Some (board e ! r ! c)))"

definition rescan_win :: "connect4 \<Rightarrow> nat \<Rightarrow> nat \<Rightarrow> bool" where
  "rescan_win e r c = (\<exists>d \<in> {(1, 0), (0, 1), (1, 1), (1, - 1)}. run_through e r c d)"

subsection \<open>Example inputs\<close>

text \<open>An opponent that always answers the same column.\<close>

primcorec always :: "int \<Rightarrow> policy" where
  "call (always c) = (\<lambda>observation legal. (c, always c))"

text \<open>A \<open>rows \<times> columns\<close> game in the state the grid \<open>b\<close> with \<open>n\<close> moves made.\<close>

definition game :: "nat \<Rightarrow> nat \<Rightarrow> int \<Rightarrow> policy \<Rightarrow> grid \<Rightarrow> int \<Rightarrow> connect4" where
  "game r c w p b n =
     \<lparr>rows = r, columns = c, win_length = w, opponent = p, board = b, num_moves = n\<rparr>"

section \<open>Lemmas on the operations\<close>

lemma np_index_nat [simp]: "i < n \<Longrightarrow> np_index n (int i) = Some i"
  by (simp add: np_index_def)

lemma np_index_last [simp]: "0 < n \<Longrightarrow> np_index n (- 1) = Some (n - 1)"
  by (auto simp: np_index_def)

lemma np_index_zero [simp]: "np_index 0 i = None"
  by (simp add: np_index_def)

lemma grid_ok_row: "grid_ok e \<Longrightarrow> r < rows e \<Longrightarrow> length (board e ! r) = columns e"
  by (simp add: grid_ok_def)

lemma locate_cell:
  "grid_ok e \<Longrightarrow> r < rows e \<Longrightarrow> c < columns e \<Longrightarrow> locate (board e) (int r) (int c) = Some (r, c)"
  by (simp add: locate_def grid_ok_def)

lemma getitem_top:
  "grid_ok e \<Longrightarrow> 0 < rows e \<Longrightarrow> c < columns e \<Longrightarrow>
   getitem (board e) (- 1) (int c) = Some (board e ! (rows e - 1) ! c)"
  by (simp add: getitem_def locate_def grid_ok_def)

lemma getitem_no_rows: "rows e = 0 \<Longrightarrow> grid_ok e \<Longrightarrow> getitem (board e) (- 1) c = None"
  by (simp add: getitem_def locate_def grid_ok_def)

declare move_loop.simps [simp del]

lemma move_loop_full:
  "\<forall>r'. r0 \<le> r' \<and> r' < rows e \<longrightarrow> board e ! r' ! c \<noteq> 0 \<Longrightarrow> grid_ok e \<Longrightarrow> c < columns e \<Longrightarrow>
   move_loop e (int c) piece r0 = (Inl InvalidMove, e)"
proof (induction e "int c" piece r0 rule: move_loop.induct)
  case (1 e piece row)
  show ?case
  proof (cases "row < rows e")
    case True
    have loc: "locate (board e) (int row) (int c) = Some (row, c)"
      using 1 True by (simp add: locate_cell)
    have ne: "board e ! row ! c \<noteq> 0" using 1 True by simp
    have "move_loop e (int c) piece (Suc row) = (Inl InvalidMove, e)"
      using 1 True loc ne by simp
    then show ?thesis using True loc ne by (subst move_loop.simps) simp
  next
    case False
    then show ?thesis by (subst move_loop.simps) simp
  qed
qed

lemma move_loop_lands:
  "r0 \<le> r \<Longrightarrow> r < rows e \<Longrightarrow> board e ! r ! c = 0 \<Longrightarrow>
   \<forall>r'. r0 \<le> r' \<and> r' < r \<longrightarrow> board e ! r' ! c \<noteq> 0 \<Longrightarrow> grid_ok e \<Longrightarrow> c < columns e \<Longrightarrow>
   move_loop e (int c) piece r0 = (Inr r, e\<lparr>board := setitem (board e) r c piece\<rparr>)"
proof (induction e "int c" piece r0 rule: move_loop.induct)
  case (1 e piece row)
  have lt: "row < rows e" using 1 by simp
  have loc: "locate (board e) (int row) (int c) = Some (row, c)"
    using 1 lt by (simp add: locate_cell)
  show ?case
  proof (cases "row = r")
    case True
    then show ?thesis using 1 loc lt by (subst move_loop.simps) simp
  next
    case False
    then have ne: "board e ! row ! c \<noteq> 0" using 1 by simp
    have "move_loop e (int c) piece (Suc row) = (Inr r, e\<lparr>board := setitem (board e) r c piece\<rparr>)"
      using 1 lt loc ne False by simp
    then show ?thesis using lt loc ne by (subst move_loop.simps) simp
  qed
qed

lemma lowest_empty:
  assumes "board e ! t ! c = 0" "t < rows e"
  obtains r where "r < rows e" "board e ! r ! c = 0" "\<forall>r'<r. board e ! r' ! c \<noteq> 0"
proof -
  define r where "r = (LEAST r. board e ! r ! c = 0)"
  have a: "board e ! r ! c = 0" unfolding r_def using assms(1) by (rule LeastI)
  have b: "r \<le> t" unfolding r_def using assms(1) by (rule Least_le)
  have c: "\<forall>r'<r. board e ! r' ! c \<noteq> 0" unfolding r_def using not_less_Least by blast
  show ?thesis using that[of r] a b c assms(2) by simp
qed

lemma move_lands:
  assumes "grid_ok e" "c < columns e" "r < rows e" "board e ! r ! c = 0"
    "\<forall>r'<r. board e ! r' ! c \<noteq> 0"
  shows "move e (int c) piece =
    (Inr r, e\<lparr>num_moves := num_moves e + 1, board := setitem (board e) r c piece\<rparr>)"
proof -
  let ?e = "e\<lparr>num_moves := num_moves e + 1\<rparr>"
  have "move_loop ?e (int c) piece 0 = (Inr r, ?e\<lparr>board := setitem (board ?e) r c piece\<rparr>)"
    using assms by (intro move_loop_lands) (simp_all add: grid_ok_def)
  then show ?thesis by (simp add: move_def)
qed

lemma move_full:
  assumes "grid_ok e" "c < columns e" "\<forall>r<rows e. board e ! r ! c \<noteq> 0"
  shows "move e (int c) piece = (Inl InvalidMove, e\<lparr>num_moves := num_moves e + 1\<rparr>)"
proof -
  let ?e = "e\<lparr>num_moves := num_moves e + 1\<rparr>"
  have "move_loop ?e (int c) piece 0 = (Inl InvalidMove, ?e)"
    using assms by (intro move_loop_full) (simp_all add: grid_ok_def)
  then show ?thesis by (simp add: move_def)
qed

lemma filter_update_empty:
  "j < length xs \<Longrightarrow> xs ! j = (0::int) \<Longrightarrow> p \<noteq> 0 \<Longrightarrow>
   length (filter (\<lambda>q. q \<noteq> 0) (xs[j := p])) = Suc (length (filter (\<lambda>q. q \<noteq> 0) xs))"
proof (induction xs arbitrary: j)
  case Nil
  then show ?case by simp
next
  case (Cons x xs)
  then show ?case by (cases j) simp_all
qed

lemma occupied_setitem:
  "i < length b \<Longrightarrow> j < length (b ! i) \<Longrightarrow> b ! i ! j = 0 \<Longrightarrow> p \<noteq> 0 \<Longrightarrow>
   occupied (setitem b i j p) = Suc (occupied b)"
proof (induction b arbitrary: i)
  case Nil
  then show ?case by simp
next
  case (Cons r b)
  show ?case
  proof (cases i)
    case 0
    then show ?thesis using Cons.prems by (simp add: occupied_def setitem_def filter_update_empty)
  next
    case (Suc k)
    then have "occupied (setitem b k j p) = Suc (occupied b)" using Cons by simp
    then show ?thesis using Suc by (simp add: occupied_def setitem_def)
  qed
qed

lemma in_set_updateD:
  "r \<in> set (xs[i := x]) \<Longrightarrow> (r = x \<and> i < length xs) \<or> r \<in> set xs"
proof -
  assume "r \<in> set (xs[i := x])"
  then obtain k where k: "k < length xs" "r = xs[i := x] ! k"
    by (auto simp: in_set_conv_nth)
  show ?thesis
  proof (cases "k = i")
    case True
    then show ?thesis using k by simp
  next
    case False
    then show ?thesis using k by simp
  qed
qed

lemma grid_ok_setitem:
  assumes "grid_ok e"
  shows "grid_ok (e\<lparr>num_moves := n, board := setitem (board e) i j p\<rparr>)"
proof -
  have "length r = columns e" if "r \<in> set (setitem (board e) i j p)" for r
  proof -
    from that have "(r = (board e ! i)[j := p] \<and> i < length (board e)) \<or> r \<in> set (board e)"
      unfolding setitem_def by (rule in_set_updateD)
    then show ?thesis using assms by (auto simp: grid_ok_def)
  qed
  then show ?thesis using assms by (simp add: grid_ok_def setitem_def)
qed

lemma pieces_ok_setitem:
  assumes "pieces_ok b" "p = 1 \<or> p = - 1"
  shows "pieces_ok (setitem b i j p)"
proof -
  have "q = 0 \<or> q = 1 \<or> q = - 1" if "r \<in> set (setitem b i j p)" "q \<in> set r" for r q
  proof -
    from that(1) have "(r = (b ! i)[j := p] \<and> i < length b) \<or> r \<in> set b"
      unfolding setitem_def by (rule in_set_updateD)
    then show ?thesis
    proof
      assume 1: "r = (b ! i)[j := p] \<and> i < length b"
      then have "(q = p \<and> j < length (b ! i)) \<or> q \<in> set (b ! i)"
        using that(2) in_set_updateD by fastforce
      then show ?thesis using assms 1 unfolding pieces_ok_def by auto
    next
      assume "r \<in> set b"
      then show ?thesis using assms that(2) unfolding pieces_ok_def by auto
    qed
  qed
  then show ?thesis unfolding pieces_ok_def by blast
qed

lemma setitem_nth:
  "i < length b \<Longrightarrow> j < length (b ! i) \<Longrightarrow>
   setitem b i j v ! i' ! j' = (if i' = i \<and> j' = j then v else b ! i' ! j')"
  by (cases "i' = i"; cases "j' = j"; cases "i' < length b") (simp_all add: setitem_def)

lemma settled_setitem:
  assumes g: "grid_ok e" and s: "settled e"
    and r: "r < rows e" and c: "c < columns e"
    and below: "\<forall>r'<r. board e ! r' ! c \<noteq> 0" and p: "piece \<noteq> 0"
  shows "settled (e\<lparr>num_moves := n, board := setitem (board e) r c piece\<rparr>)"
proof -
  have l: "r < length (board e)" "c < length (board e ! r)" using g r c by (simp_all add: grid_ok_def)
  have nth: "setitem (board e) r c piece ! i ! j = (if i = r \<and> j = c then piece else board e ! i ! j)"
    for i j using l by (rule setitem_nth)
  have "setitem (board e) r c piece ! r2 ! c1 = 0"
    if h: "c1 < columns e" "r1 < rows e" "setitem (board e) r c piece ! r1 ! c1 = 0"
      "r1 < r2" "r2 < rows e" for c1 r1 r2
  proof -
    have old: "board e ! r1 ! c1 = 0" "\<not> (r1 = r \<and> c1 = c)"
      using h(3) p nth[of r1 c1] by (auto split: if_splits)
    then have up: "board e ! r2 ! c1 = 0" using s h unfolding settled_def by blast
    have "\<not> (r2 = r \<and> c1 = c)" using old(1) below h(4) by auto
    then show ?thesis using up nth[of r2 c1] by auto
  qed
  then show ?thesis unfolding settled_def by simp
qed

lemma state_ok_move:
  assumes "state_ok e" "c < columns e" "r < rows e" "board e ! r ! c = 0"
    "\<forall>r'<r. board e ! r' ! c \<noteq> 0" "piece = 1 \<or> piece = - 1"
  shows "state_ok (e\<lparr>num_moves := num_moves e + 1, board := setitem (board e) r c piece\<rparr>)"
proof -
  have g: "grid_ok e" and s: "settled e" using assms(1) by (simp_all add: state_ok_def)
  have "occupied (setitem (board e) r c piece) = Suc (occupied (board e))"
    using assms g by (intro occupied_setitem) (auto simp: grid_ok_def)
  moreover have "piece \<noteq> 0" using assms(6) by auto
  then have "settled (e\<lparr>num_moves := num_moves e + 1, board := setitem (board e) r c piece\<rparr>)"
    using g s assms(2,3,5) by (intro settled_setitem)
  ultimately show ?thesis
    using assms grid_ok_setitem[OF g] pieces_ok_setitem[of "board e" piece r c]
    by (simp add: state_ok_def)
qed

lemma ncols_grid_ok: "grid_ok e \<Longrightarrow> 0 < rows e \<Longrightarrow> ncols (board e) = columns e"
  by (cases "board e") (auto simp: grid_ok_def ncols_def)

lemma is_win_total:
  "grid_ok e \<Longrightarrow> r < rows e \<Longrightarrow> c < columns e \<Longrightarrow> \<exists>w. is_win e r c = Inr w"
  by (auto simp: is_win_def Let_def ncols_grid_ok grid_ok_def)

lemma drop_at_fields [simp]:
  "rows (drop_at e r c p) = rows e" "columns (drop_at e r c p) = columns e"
  "win_length (drop_at e r c p) = win_length e" "opponent (drop_at e r c p) = opponent e"
  "num_moves (drop_at e r c p) = num_moves e + 1"
  "board (drop_at e r c p) = setitem (board e) r c p"
  by (simp_all add: drop_at_def)

lemma top_empty_lowest:
  assumes "grid_ok e" "0 < rows e" "board e ! (rows e - 1) ! c = 0"
  obtains r where "lowest_empty_row e c r"
proof -
  have "rows e - 1 < rows e" using assms(2) by simp
  with assms(3) obtain r where "r < rows e" "board e ! r ! c = 0" "\<forall>r'<r. board e ! r' ! c \<noteq> 0"
    using lowest_empty[of e "rows e - 1" c] by blast
  then show ?thesis using that by (simp add: lowest_empty_row_def)
qed

lemma lowest_empty_row_unique:
  "lowest_empty_row e c r \<Longrightarrow> lowest_empty_row e c r' \<Longrightarrow> r = r'"
  unfolding lowest_empty_row_def by (metis linorder_neqE_nat)

lemma move_drop_at:
  "grid_ok e \<Longrightarrow> c < columns e \<Longrightarrow> lowest_empty_row e c r \<Longrightarrow>
   move e (int c) piece = (Inr r, drop_at e r c piece)"
  unfolding lowest_empty_row_def drop_at_def by (intro move_lands) auto

lemma state_ok_drop_at:
  "state_ok e \<Longrightarrow> c < columns e \<Longrightarrow> lowest_empty_row e c r \<Longrightarrow> piece = 1 \<or> piece = - 1 \<Longrightarrow>
   state_ok (drop_at e r c piece)"
  unfolding lowest_empty_row_def drop_at_def by (intro state_ok_move) auto

lemma grid_ok_drop_at: "grid_ok e \<Longrightarrow> grid_ok (drop_at e r c piece)"
  unfolding drop_at_def by (rule grid_ok_setitem)

lemma action_masks_ok:
  "grid_ok e \<Longrightarrow> 0 < rows e \<Longrightarrow>
   action_masks e = Inr (map (\<lambda>p. p = 0) (board e ! (rows e - 1)))"
  by (simp add: action_masks_def grid_ok_def)

lemma action_masks_no_rows: "grid_ok e \<Longrightarrow> rows e = 0 \<Longrightarrow> action_masks e = Inl IndexError"
  by (simp add: action_masks_def grid_ok_def)

lemma grid_ok_opponent [simp]: "grid_ok (e\<lparr>opponent := q\<rparr>) = grid_ok e"
  by (simp add: grid_ok_def)

lemma state_ok_opponent [simp]: "state_ok (e\<lparr>opponent := q\<rparr>) = state_ok e"
  by (simp add: state_ok_def settled_def)

lemma lowest_empty_row_opponent [simp]:
  "lowest_empty_row (e\<lparr>opponent := q\<rparr>) c r = lowest_empty_row e c r"
  by (simp add: lowest_empty_row_def)

text \<open>The three outcomes of the opponent's turn.\<close>

lemma opponent_move_no_rows:
  "grid_ok e \<Longrightarrow> rows e = 0 \<Longrightarrow> opponent_move e = (Inl IndexError, e)"
  by (simp add: opponent_move_def action_masks_no_rows)

lemma opponent_move_illegal:
  assumes "grid_ok e" "0 < rows e"
    and "call (opponent e) (get_observation e (- 1)) (map (\<lambda>p. p = 0) (board e ! (rows e - 1))) = (col, q)"
    and "\<not> contains (columns e) col \<or> board e ! (rows e - 1) ! nat col \<noteq> 0"
  shows "opponent_move e = (Inl (InvalidOpponentMove col), e\<lparr>opponent := q\<rparr>)"
proof (cases "contains (columns e) col")
  case False
  then show ?thesis using assms by (simp add: opponent_move_def action_masks_ok)
next
  case True
  then have c: "nat col < columns e" "int (nat col) = col" by (auto simp: contains_def)
  have "getitem (board (e\<lparr>opponent := q\<rparr>)) (- 1) (int (nat col)) = Some (board e ! (rows e - 1) ! nat col)"
    using getitem_top[of "e\<lparr>opponent := q\<rparr>" "nat col"] assms c by simp
  then show ?thesis using assms True c by (simp add: opponent_move_def action_masks_ok)
qed

lemma opponent_move_legal:
  assumes "grid_ok e" "0 < rows e"
    and "call (opponent e) (get_observation e (- 1)) (map (\<lambda>p. p = 0) (board e ! (rows e - 1))) = (col, q)"
    and "contains (columns e) col" "board e ! (rows e - 1) ! nat col = 0"
  obtains r where "lowest_empty_row e (nat col) r"
    "opponent_move e = (Inr (r, col), drop_at (e\<lparr>opponent := q\<rparr>) r (nat col) (- 1))"
proof -
  have c: "nat col < columns e" "int (nat col) = col" using assms(4) by (auto simp: contains_def)
  obtain r where r: "lowest_empty_row e (nat col) r"
    using top_empty_lowest[OF assms(1,2,5)] by blast
  have g: "getitem (board (e\<lparr>opponent := q\<rparr>)) (- 1) (int (nat col)) = Some (board e ! (rows e - 1) ! nat col)"
    using getitem_top[of "e\<lparr>opponent := q\<rparr>" "nat col"] assms c by simp
  have m: "move (e\<lparr>opponent := q\<rparr>) (int (nat col)) (- 1) = (Inr r, drop_at (e\<lparr>opponent := q\<rparr>) r (nat col) (- 1))"
    using assms(1) c r by (intro move_drop_at) simp_all
  have "opponent_move e = (Inr (r, col), drop_at (e\<lparr>opponent := q\<rparr>) r (nat col) (- 1))"
    using assms g m c by (simp add: opponent_move_def action_masks_ok)
  then show ?thesis using that r by blast
qed

lemma state_ok_opponent_move:
  assumes "state_ok e"
  shows "state_ok (snd (opponent_move e))"
proof (cases "rows e = 0")
  case True
  then show ?thesis using assms by (simp add: opponent_move_no_rows state_ok_def)
next
  case False
  then have pos: "0 < rows e" by simp
  have g: "grid_ok e" using assms by (simp add: state_ok_def)
  obtain col q where cq:
    "call (opponent e) (get_observation e (- 1)) (map (\<lambda>p. p = 0) (board e ! (rows e - 1))) = (col, q)"
    by (cases "call (opponent e) (get_observation e (- 1)) (map (\<lambda>p. p = 0) (board e ! (rows e - 1)))")
  show ?thesis
  proof (cases "contains (columns e) col \<and> board e ! (rows e - 1) ! nat col = 0")
    case True
    then obtain r where r: "lowest_empty_row e (nat col) r"
      "opponent_move e = (Inr (r, col), drop_at (e\<lparr>opponent := q\<rparr>) r (nat col) (- 1))"
      using opponent_move_legal[OF g pos cq] by blast
    have "nat col < columns e" using True by (auto simp: contains_def)
    then have "state_ok (drop_at (e\<lparr>opponent := q\<rparr>) r (nat col) (- 1))"
      using assms r(1) by (intro state_ok_drop_at) simp_all
    then show ?thesis using r(2) by simp
  next
    case False
    then have "opponent_move e = (Inl (InvalidOpponentMove col), e\<lparr>opponent := q\<rparr>)"
      using opponent_move_illegal[OF g pos cq] by blast
    then show ?thesis using assms by simp
  qed
qed

lemma step_out_of_range: "\<not> contains (columns e) a \<Longrightarrow> step e a = (Inl InvalidAction, e)"
  by (simp add: step_def)

lemma step_no_rows:
  "grid_ok e \<Longrightarrow> rows e = 0 \<Longrightarrow> contains (columns e) a \<Longrightarrow> step e a = (Inl IndexError, e)"
  by (simp add: step_def getitem_no_rows)

lemma step_column_full:
  assumes "grid_ok e" "0 < rows e" "contains (columns e) a" "board e ! (rows e - 1) ! nat a \<noteq> 0"
  shows "step e a = (Inl InvalidAction, e)"
proof -
  have c: "nat a < columns e" "int (nat a) = a" using assms(3) by (auto simp: contains_def)
  have "getitem (board e) (- 1) (int (nat a)) = Some (board e ! (rows e - 1) ! nat a)"
    using assms c by (intro getitem_top)
  then show ?thesis using assms c by (simp add: step_def)
qed

lemma step_legal:
  assumes "grid_ok e" "0 < rows e" "contains (columns e) a" "board e ! (rows e - 1) ! nat a = 0"
  obtains r w where "lowest_empty_row e (nat a) r"
    "is_win (drop_at e r (nat a) 1) r (nat a) = Inr w"
    "step e a = after_agent (drop_at e r (nat a) 1) w"
proof -
  have c: "nat a < columns e" "int (nat a) = a" using assms(3) by (auto simp: contains_def)
  have g: "getitem (board e) (- 1) (int (nat a)) = Some (board e ! (rows e - 1) ! nat a)"
    using assms c by (intro getitem_top)
  obtain r where r: "lowest_empty_row e (nat a) r"
    using top_empty_lowest[OF assms(1,2,4)] by blast
  let ?e1 = "drop_at e r (nat a) 1"
  have m: "move e (int (nat a)) 1 = (Inr r, ?e1)"
    using assms(1) c r by (intro move_drop_at)
  have "r < rows e" using r by (simp add: lowest_empty_row_def)
  then obtain w where w: "is_win ?e1 r (nat a) = Inr w"
    using is_win_total[of ?e1 r "nat a"] grid_ok_drop_at[OF assms(1)] c by auto
  have "step e a = after_agent ?e1 w"
    using assms g m w c by (cases w) (simp_all add: step_def after_agent_def)
  then show ?thesis using that r w by blast
qed

lemma state_ok_after_agent: "state_ok e1 \<Longrightarrow> state_ok (snd (after_agent e1 w))"
  using state_ok_opponent_move[of e1]
  by (auto simp: after_agent_def split: prod.splits sum.splits bool.splits)

lemma state_ok_step:
  assumes "state_ok e"
  shows "state_ok (snd (step e a))"
proof -
  have g: "grid_ok e" using assms by (simp add: state_ok_def)
  consider "\<not> contains (columns e) a" | "contains (columns e) a" "rows e = 0"
    | "contains (columns e) a" "0 < rows e" "board e ! (rows e - 1) ! nat a \<noteq> 0"
    | "contains (columns e) a" "0 < rows e" "board e ! (rows e - 1) ! nat a = 0"
    by auto
  then show ?thesis
  proof cases
    case 1
    then show ?thesis using assms by (simp add: step_out_of_range)
  next
    case 2
    then show ?thesis using assms g by (simp add: step_no_rows)
  next
    case 3
    then show ?thesis using assms g by (simp add: step_column_full)
  next
    case 4
    then obtain r w where r: "lowest_empty_row e (nat a) r"
      "step e a = after_agent (drop_at e r (nat a) 1) w"
      using step_legal[OF g 4(2) 4(1) 4(3)] by blast
    have "nat a < columns e" using 4(1) by (auto simp: contains_def)
    then have "state_ok (drop_at e r (nat a) 1)"
      using assms r(1) by (intro state_ok_drop_at) simp_all
    then show ?thesis using r(2) state_ok_after_agent by simp
  qed
qed

lemma filter_replicate_zero [simp]: "filter (\<lambda>p. p \<noteq> 0) (replicate n (0::int)) = []"
  by (induction n) simp_all

lemma occupied_replicate [simp]: "occupied (replicate m (replicate n 0)) = 0"
  by (induction m) (simp_all add: occupied_def)

lemma state_ok_cleared:
  "state_ok (e\<lparr>opponent := opp, board := replicate (rows e) (replicate (columns e) 0), num_moves := 0\<rparr>)"
  by (simp add: state_ok_def grid_ok_def pieces_ok_def settled_def)

lemma state_ok_reset: "state_ok (snd (reset e opp coin))"
  using state_ok_opponent_move[OF state_ok_cleared[of e opp]] state_ok_cleared[of e opp]
  by (auto simp: reset_def Let_def split: prod.splits sum.splits)

lemma reachable_state_ok: "reachable e \<Longrightarrow> state_ok e"
  by (induction rule: reachable.induct) (simp_all add: state_ok_reset state_ok_step)

lemma occupied_bound:
  "\<forall>r \<in> set b. length r = n \<Longrightarrow>
   occupied b \<le> length b * n \<and> (occupied b = length b * n \<longleftrightarrow> board_full b)"
proof (induction b)
  case Nil
  then show ?case by (simp add: occupied_def board_full_def)
next
  case (Cons r b)
  have len: "length r = n" using Cons.prems by simp
  have le: "length (filter (\<lambda>p. p \<noteq> 0) r) \<le> n" using len length_filter_le[of _ r] by metis
  have eq: "length (filter (\<lambda>p. p \<noteq> 0) r) = n \<longleftrightarrow> 0 \<notin> set r"
    using len by (metis (mono_tags, lifting) filter_id_conv length_filter_less less_irrefl)
  have ih: "occupied b \<le> length b * n" "occupied b = length b * n \<longleftrightarrow> board_full b"
    using Cons by simp_all
  have occ: "occupied (r # b) = length (filter (\<lambda>p. p \<noteq> 0) r) + occupied b"
    by (simp add: occupied_def)
  have full: "board_full (r # b) \<longleftrightarrow> 0 \<notin> set r \<and> board_full b"
    by (simp add: board_full_def)
  show ?case using le eq ih occ full by auto
qed

lemma full_iff_count:
  "state_ok e \<Longrightarrow> board_full (board e) \<longleftrightarrow> num_moves e = int (rows e) * int (columns e)"
proof -
  assume s: "state_ok e"
  then have "\<forall>r \<in> set (board e). length r = columns e" "length (board e) = rows e"
    by (simp_all add: state_ok_def grid_ok_def)
  then have "occupied (board e) = rows e * columns e \<longleftrightarrow> board_full (board e)"
    using occupied_bound[of "board e" "columns e"] by simp
  moreover have "int (occupied (board e)) = num_moves e" using s by (simp add: state_ok_def)
  ultimately show ?thesis by (metis of_nat_eq_iff of_nat_mult)
qed

text \<open>The defining equations, for running the operations on concrete inputs.\<close>

lemmas run_defs = game_def reset_def step_def contains_def getitem_def locate_def np_index_def
  move_def setitem_def is_win_def ncols_def down_from_def line_length_def diagonal_def
  opponent_move_def action_masks_def get_observation_def result_def Let_def
  move_loop.simps occupied_def board_full_def grid_ok_def

lemma opponent_move_outcome:
  assumes "grid_ok e"
  shows "(\<exists>err e'. opponent_move e = (Inl err, e') \<and> (err = IndexError \<or> (\<exists>col. err = InvalidOpponentMove col)))
    \<or> (\<exists>r col e'. opponent_move e = (Inr (r, col), e') \<and> grid_ok e' \<and> r < rows e' \<and> contains (columns e') col)"
proof (cases "rows e = 0")
  case True
  then show ?thesis using assms by (simp add: opponent_move_no_rows)
next
  case False
  then have pos: "0 < rows e" by simp
  obtain col q where cq:
    "call (opponent e) (get_observation e (- 1)) (map (\<lambda>p. p = 0) (board e ! (rows e - 1))) = (col, q)"
    by (cases "call (opponent e) (get_observation e (- 1)) (map (\<lambda>p. p = 0) (board e ! (rows e - 1)))")
  show ?thesis
  proof (cases "contains (columns e) col \<and> board e ! (rows e - 1) ! nat col = 0")
    case True
    then obtain r where r: "lowest_empty_row e (nat col) r"
      "opponent_move e = (Inr (r, col), drop_at (e\<lparr>opponent := q\<rparr>) r (nat col) (- 1))"
      using opponent_move_legal[OF assms pos cq] by blast
    have "grid_ok (drop_at (e\<lparr>opponent := q\<rparr>) r (nat col) (- 1))"
      using assms by (intro grid_ok_drop_at) simp
    then show ?thesis using r True by (simp add: lowest_empty_row_def)
  next
    case False
    then have "opponent_move e = (Inl (InvalidOpponentMove col), e\<lparr>opponent := q\<rparr>)"
      using opponent_move_illegal[OF assms pos cq] by blast
    then show ?thesis by simp
  qed
qed

lemma after_agent_not_invalid_move:
  assumes "grid_ok e1"
  shows "fst (after_agent e1 w) \<noteq> Inl InvalidMove"
proof -
  from opponent_move_outcome[OF assms] show ?thesis
  proof
    assume "\<exists>err e'. opponent_move e1 = (Inl err, e') \<and> (err = IndexError \<or> (\<exists>col. err = InvalidOpponentMove col))"
    then show ?thesis by (auto simp: after_agent_def)
  next
    assume "\<exists>r col e'. opponent_move e1 = (Inr (r, col), e') \<and> grid_ok e' \<and> r < rows e' \<and> contains (columns e') col"
    then obtain r col e' where o: "opponent_move e1 = (Inr (r, col), e')" "grid_ok e'" "r < rows e'"
      "contains (columns e') col" by blast
    then have "nat col < columns e'" by (auto simp: contains_def)
    then obtain w' where "is_win e' r (nat col) = Inr w'" using is_win_total o by blast
    then show ?thesis using o by (cases w') (simp_all add: after_agent_def)
  qed
qed

lemma step_not_invalid_move:
  assumes g: "grid_ok e"
  shows "fst (step e a) \<noteq> Inl InvalidMove"
proof -
  consider "\<not> contains (columns e) a" | "contains (columns e) a" "rows e = 0"
    | "contains (columns e) a" "0 < rows e" "board e ! (rows e - 1) ! nat a \<noteq> 0"
    | "contains (columns e) a" "0 < rows e" "board e ! (rows e - 1) ! nat a = 0"
    by auto
  then show ?thesis
  proof cases
    case 1
    then show ?thesis by (simp add: step_out_of_range)
  next
    case 2
    then show ?thesis using g by (simp add: step_no_rows)
  next
    case 3
    then show ?thesis using g by (simp add: step_column_full)
  next
    case 4
    then obtain r w where r: "step e a = after_agent (drop_at e r (nat a) 1) w"
      using step_legal[OF g 4(2) 4(1) 4(3)] by blast
    show ?thesis using r after_agent_not_invalid_move[OF grid_ok_drop_at[OF g]] by simp
  qed
qed

lemma reset_not_invalid_move: "fst (reset e opp coin) \<noteq> Inl InvalidMove"
proof -
  let ?e1 = "e\<lparr>opponent := opp, board := replicate (rows e) (replicate (columns e) 0), num_moves := 0\<rparr>"
  have "grid_ok ?e1" using state_ok_cleared[of e opp] by (simp add: state_ok_def)
  from opponent_move_outcome[OF this] show ?thesis
    by (auto simp: reset_def Let_def)
qed

lemma after_agent_errors:
  assumes "grid_ok e1" "after_agent e1 w = (Inl err, e')"
  shows "err = IndexError \<or> (\<exists>col. err = InvalidOpponentMove col)"
proof -
  from opponent_move_outcome[OF assms(1)] show ?thesis
  proof
    assume "\<exists>err e'. opponent_move e1 = (Inl err, e') \<and> (err = IndexError \<or> (\<exists>col. err = InvalidOpponentMove col))"
    then show ?thesis using assms(2) by (auto simp: after_agent_def split: if_splits)
  next
    assume "\<exists>r col e'. opponent_move e1 = (Inr (r, col), e') \<and> grid_ok e' \<and> r < rows e' \<and> contains (columns e') col"
    then obtain r col e2 where o: "opponent_move e1 = (Inr (r, col), e2)" "grid_ok e2" "r < rows e2"
      "contains (columns e2) col" by blast
    then have "nat col < columns e2" by (auto simp: contains_def)
    then obtain w' where "is_win e2 r (nat col) = Inr w'" using is_win_total o by blast
    then show ?thesis using o assms(2) by (cases w') (auto simp: after_agent_def split: if_splits)
  qed
qed

lemma board_full_top:
  assumes "grid_ok e" "0 < rows e" "board_full (board e)" "c < columns e"
  shows "board e ! (rows e - 1) ! c \<noteq> 0"
proof -
  let ?top = "board e ! (rows e - 1)"
  have "?top \<in> set (board e)" "length ?top = columns e" using assms by (simp_all add: grid_ok_def)
  then show ?thesis using assms(3,4) unfolding board_full_def by (metis nth_mem)
qed

lemma plane_counts:
  assumes "\<forall>x \<in> set r. x = 0 \<or> x = 1 \<or> x = - 1" "p = 1 \<or> p = - 1"
  shows "length (filter (\<lambda>x. x) (map (\<lambda>x. x = p) r)) + length (filter (\<lambda>x. x) (map (\<lambda>x. x = - p) r))
    = length (filter (\<lambda>x. x \<noteq> 0) (r :: int list))"
  using assms(1)
proof (induction r)
  case Nil
  then show ?case by simp
next
  case (Cons x r)
  have x: "x = 0 \<or> x = 1 \<or> x = - 1" using Cons.prems by simp
  have ih: "length (filter (\<lambda>x. x) (map (\<lambda>x. x = p) r)) + length (filter (\<lambda>x. x) (map (\<lambda>x. x = - p) r))
    = length (filter (\<lambda>x. x \<noteq> 0) r)"
    using Cons by simp
  have one: "(if x = p then 1 else 0) + (if x = - p then 1 else 0) = (if x \<noteq> 0 then 1 else (0::nat))"
    using x assms(2) by (elim disjE) simp_all
  show ?case using ih one by (simp split: if_splits)
qed

lemma count_true_planes:
  assumes "pieces_ok b" "p = 1 \<or> p = - 1"
  shows "count_true (map (map (\<lambda>x. x = p)) b) + count_true (map (map (\<lambda>x. x = - p)) b) = occupied b"
  using assms(1)
proof (induction b)
  case Nil
  then show ?case by (simp add: count_true_def occupied_def)
next
  case (Cons r b)
  have r: "\<forall>x \<in> set r. x = 0 \<or> x = 1 \<or> x = - 1" using Cons.prems by (simp add: pieces_ok_def)
  have b: "pieces_ok b" using Cons.prems by (simp add: pieces_ok_def)
  have ih: "count_true (map (map (\<lambda>x. x = p)) b) + count_true (map (map (\<lambda>x. x = - p)) b) = occupied b"
    using Cons.IH[OF b] .
  have c1: "count_true (map (map (\<lambda>x. x = p)) (r # b))
    = length (filter (\<lambda>x. x) (map (\<lambda>x. x = p) r)) + count_true (map (map (\<lambda>x. x = p)) b)"
    by (simp add: count_true_def)
  have c2: "count_true (map (map (\<lambda>x. x = - p)) (r # b))
    = length (filter (\<lambda>x. x) (map (\<lambda>x. x = - p) r)) + count_true (map (map (\<lambda>x. x = - p)) b)"
    by (simp add: count_true_def)
  have o: "occupied (r # b) = length (filter (\<lambda>x. x \<noteq> 0) r) + occupied b"
    by (simp add: occupied_def)
  show ?case using plane_counts[OF r assms(2)] ih c1 c2 o by linarith
qed

lemma line_loop_takeWhile:
  "line_loop v xs n = n + int (length (takeWhile (\<lambda>p. p = v) xs))"
  by (induction xs arbitrary: n) simp_all

lemma line_length_map:
  assumes "0 < n"
  shows "line_length (map f [0..<n]) = int (length (takeWhile (\<lambda>p. p = f 0) (map f [1..<n])))"
proof -
  have "[0..<n] = 0 # [1..<n]" using assms by (simp add: upt_conv_Cons)
  then show ?thesis by (simp add: line_length_def line_loop_takeWhile)
qed

lemma line_length_bounds:
  "0 \<le> line_length (map f [0..<n])" "line_length (map f [0..<n]) \<le> int n"
proof -
  show "0 \<le> line_length (map f [0..<n])"
    by (cases "0 < n") (simp_all add: line_length_map, simp add: line_length_def)
  show "line_length (map f [0..<n]) \<le> int n"
  proof (cases "0 < n")
    case True
    have "length (takeWhile (\<lambda>p. p = f 0) (map f [1..<n])) \<le> length (map f [1..<n])"
      by (rule length_takeWhile_le)
    then show ?thesis using True by (simp add: line_length_map)
  next
    case False
    then show ?thesis by (simp add: line_length_def)
  qed
qed

text \<open>
  A ray of \<open>n\<close> cells \<open>f 0, ..., f (n - 1)\<close>, the cells \<open>G 0, ..., G (n - 1)\<close> of the board in
  one direction, after which the board ends: the first \<open>h\<close> cells beyond \<open>f 0\<close> all hold
  \<open>v = f 0\<close> exactly when \<open>h\<close> is at most \<open>_line_length\<close> of the ray.
\<close>

lemma ray_run:
  fixes G :: "nat \<Rightarrow> int option"
  assumes "0 < n" "\<forall>k<n. G k = Some (f k)" "G n = None" "f 0 = v"
  shows "(\<forall>k. 1 \<le> k \<and> k \<le> h \<longrightarrow> G k = Some v) \<longleftrightarrow> int h \<le> line_length (map f [0..<n])"
proof -
  let ?xs = "map f [1..<n]"
  let ?m = "length (takeWhile (\<lambda>p. p = v) ?xs)"
  have ll: "line_length (map f [0..<n]) = int ?m" using assms(1,4) by (simp add: line_length_map)
  have len: "length ?xs = n - 1" by simp
  have mle: "?m \<le> n - 1" using length_takeWhile_le[of "\<lambda>p. p = v" ?xs] by simp
  have inside: "f (Suc i) = v" if "i < ?m" for i
  proof -
    have "takeWhile (\<lambda>p. p = v) ?xs ! i = ?xs ! i" using that by (rule takeWhile_nth)
    moreover have "takeWhile (\<lambda>p. p = v) ?xs ! i \<in> set (takeWhile (\<lambda>p. p = v) ?xs)"
      using that by simp
    then have "takeWhile (\<lambda>p. p = v) ?xs ! i = v" by (metis (mono_tags, lifting) set_takeWhileD)
    moreover have "i < n - 1" using that mle by simp
    then have "?xs ! i = f (Suc i)" by simp
    ultimately show ?thesis by simp
  qed
  have stop: "f (Suc ?m) \<noteq> v" if "?m < n - 1"
  proof -
    have "\<not> (\<lambda>p. p = v) (?xs ! ?m)" using that by (intro nth_length_takeWhile) simp
    moreover have "?xs ! ?m = f (Suc ?m)" using that by simp
    ultimately show ?thesis by simp
  qed
  show ?thesis
  proof
    assume run: "\<forall>k. 1 \<le> k \<and> k \<le> h \<longrightarrow> G k = Some v"
    have "h \<le> ?m"
    proof (rule ccontr)
      assume "\<not> h \<le> ?m"
      then have k: "1 \<le> Suc ?m" "Suc ?m \<le> h" by simp_all
      then have g: "G (Suc ?m) = Some v" using run by blast
      show False
      proof (cases "?m < n - 1")
        case True
        then have "G (Suc ?m) = Some (f (Suc ?m))" using assms(2) by simp
        then show False using g stop[OF True] by simp
      next
        case False
        then have "Suc ?m = n" using mle assms(1) by simp
        then show False using g assms(3) by simp
      qed
    qed
    then show "int h \<le> line_length (map f [0..<n])" using ll by simp
  next
    assume "int h \<le> line_length (map f [0..<n])"
    then have hm: "h \<le> ?m" using ll by simp
    show "\<forall>k. 1 \<le> k \<and> k \<le> h \<longrightarrow> G k = Some v"
    proof (intro allI impI)
      fix k assume k: "1 \<le> k \<and> k \<le> h"
      then obtain i where i: "k = Suc i" by (cases k) simp_all
      then have "i < ?m" using k hm by simp
      then have "f k = v" "k < n" using inside[of i] i mle by simp_all
      then show "G k = Some v" using assms(2) by simp
    qed
  qed
qed

text \<open>
  An axis through a cell holding \<open>v\<close>, as cells \<open>Gz k\<close> for integer offsets \<open>k\<close>: when the two
  rays from the cell run for \<open>F\<close> and \<open>B\<close> cells of \<open>v\<close>, a segment of \<open>W\<close> or more cells of
  \<open>v\<close> through the cell exists exactly when \<open>W \<le> B + F + 1\<close>.
\<close>

lemma axis_run:
  fixes Gz :: "int \<Rightarrow> int option"
  assumes zero: "Gz 0 = Some v"
    and fwd: "\<And>h::nat. (\<forall>k::nat. 1 \<le> k \<and> k \<le> h \<longrightarrow> Gz (int k) = Some v) \<longleftrightarrow> int h \<le> F"
    and bwd: "\<And>h::nat. (\<forall>k::nat. 1 \<le> k \<and> k \<le> h \<longrightarrow> Gz (- int k) = Some v) \<longleftrightarrow> int h \<le> B"
    and bounds: "0 \<le> F" "F \<le> int N" "0 \<le> B" "B \<le> int N"
  shows "(\<exists>lo\<in>{..N}. \<exists>hi\<in>{..N}. W \<le> int lo + int hi + 1
            \<and> (\<forall>k\<in>{- int lo..int hi}. Gz k = Some v))
         \<longleftrightarrow> W \<le> B + F + 1"
proof -
  have seg: "(\<forall>k\<in>{- int lo..int hi}. Gz k = Some v) \<longleftrightarrow> int hi \<le> F \<and> int lo \<le> B" for lo hi :: nat
  proof
    assume a: "\<forall>k\<in>{- int lo..int hi}. Gz k = Some v"
    have "\<forall>k::nat. 1 \<le> k \<and> k \<le> hi \<longrightarrow> Gz (int k) = Some v" using a by simp
    then have 1: "int hi \<le> F" using fwd by blast
    have "\<forall>k::nat. 1 \<le> k \<and> k \<le> lo \<longrightarrow> Gz (- int k) = Some v" using a by simp
    then have 2: "int lo \<le> B" using bwd by blast
    show "int hi \<le> F \<and> int lo \<le> B" using 1 2 by simp
  next
    assume b: "int hi \<le> F \<and> int lo \<le> B"
    then have f: "\<forall>k::nat. 1 \<le> k \<and> k \<le> hi \<longrightarrow> Gz (int k) = Some v" using fwd by blast
    from b have g: "\<forall>k::nat. 1 \<le> k \<and> k \<le> lo \<longrightarrow> Gz (- int k) = Some v" using bwd by blast
    show "\<forall>k\<in>{- int lo..int hi}. Gz k = Some v"
    proof
      fix k assume k: "k \<in> {- int lo..int hi}"
      consider "k = 0" | "0 < k" | "k < 0" by linarith
      then show "Gz k = Some v"
      proof cases
        case 1
        then show ?thesis using zero by simp
      next
        case 2
        then have "1 \<le> nat k \<and> nat k \<le> hi" "int (nat k) = k" using k by auto
        then show ?thesis using f by metis
      next
        case 3
        then have "1 \<le> nat (- k) \<and> nat (- k) \<le> lo" "- int (nat (- k)) = k" using k by auto
        then show ?thesis using g by metis
      qed
    qed
  qed
  show ?thesis
  proof
    assume "\<exists>lo\<in>{..N}. \<exists>hi\<in>{..N}. W \<le> int lo + int hi + 1 \<and> (\<forall>k\<in>{- int lo..int hi}. Gz k = Some v)"
    then obtain lo hi where "W \<le> int lo + int hi + 1" "\<forall>k\<in>{- int lo..int hi}. Gz k = Some v"
      by blast
    then show "W \<le> B + F + 1" using seg[of lo hi] by linarith
  next
    assume w: "W \<le> B + F + 1"
    have "nat B \<in> {..N}" "nat F \<in> {..N}" using bounds by auto
    moreover have "W \<le> int (nat B) + int (nat F) + 1" using w bounds by simp
    moreover have "\<forall>k\<in>{- int (nat B)..int (nat F)}. Gz k = Some v"
      using seg[of "nat B" "nat F"] bounds by simp
    ultimately show "\<exists>lo\<in>{..N}. \<exists>hi\<in>{..N}. W \<le> int lo + int hi + 1 \<and> (\<forall>k\<in>{- int lo..int hi}. Gz k = Some v)"
      by blast
  qed
qed

lemma cell_at_inside:
  "grid_ok e \<Longrightarrow> 0 \<le> i \<Longrightarrow> i < int (rows e) \<Longrightarrow> 0 \<le> j \<Longrightarrow> j < int (columns e) \<Longrightarrow>
   cell_at (board e) i j = Some (board e ! nat i ! nat j)"
  by (simp add: cell_at_def grid_ok_def)

lemma cell_at_outside:
  "grid_ok e \<Longrightarrow> \<not> (0 \<le> i \<and> i < int (rows e) \<and> 0 \<le> j \<and> j < int (columns e)) \<Longrightarrow>
   cell_at (board e) i j = None"
  by (auto simp: cell_at_def grid_ok_def)

text \<open>
  A slice of \<open>_is_win\<close> that lists the cells at the positions \<open>(ri k, ci k)\<close>, \<open>k < n\<close>,
  starting at \<open>(r, c)\<close> and ending where the board does.
\<close>

lemma ray_line:
  fixes ri ci :: "nat \<Rightarrow> int"
  assumes g: "grid_ok e"
    and slice: "slice = map f [0..<n]" "0 < n" "n \<le> rows e + columns e"
    and start: "ri 0 = int r" "ci 0 = int c"
    and inb: "\<forall>k<n. 0 \<le> ri k \<and> ri k < int (rows e) \<and> 0 \<le> ci k \<and> ci k < int (columns e)
                \<and> f k = board e ! nat (ri k) ! nat (ci k)"
    and out: "\<not> (0 \<le> ri n \<and> ri n < int (rows e) \<and> 0 \<le> ci n \<and> ci n < int (columns e))"
  shows "(\<forall>k. 1 \<le> k \<and> k \<le> h \<longrightarrow> cell_at (board e) (ri k) (ci k) = Some (board e ! r ! c))
           \<longleftrightarrow> int h \<le> line_length slice"
    and "0 \<le> line_length slice" and "line_length slice \<le> int (rows e + columns e)"
proof -
  let ?G = "\<lambda>k. cell_at (board e) (ri k) (ci k)"
  have 1: "\<forall>k<n. ?G k = Some (f k)" using inb g by (simp add: cell_at_inside)
  have 2: "?G n = None" using out g by (intro cell_at_outside) simp_all
  have 3: "f 0 = board e ! r ! c" using inb slice(2) start by auto
  show "(\<forall>k. 1 \<le> k \<and> k \<le> h \<longrightarrow> cell_at (board e) (ri k) (ci k) = Some (board e ! r ! c))
           \<longleftrightarrow> int h \<le> line_length slice"
    unfolding slice(1) using ray_run[of n ?G f "board e ! r ! c" h, OF slice(2) 1 2 3] .
  show "0 \<le> line_length slice" unfolding slice(1) by (rule line_length_bounds)
  show "line_length slice \<le> int (rows e + columns e)"
    unfolding slice(1) using line_length_bounds(2)[of f n] slice(3) by linarith
qed

lemma down_from_length: "i < length a \<Longrightarrow> length (down_from i a) = Suc i"
  by (simp add: down_from_def)

lemma down_from_nth: "i < length a \<Longrightarrow> k \<le> i \<Longrightarrow> down_from i a ! k = a ! (i - k)"
  by (simp add: down_from_def rev_nth)

lemma diagonal_eq:
  assumes "m \<noteq> []" "length m = p" "length (hd m) = q" "n = min p q"
    and "\<forall>k<n. m ! k ! k = f k"
  shows "diagonal m = map f [0..<n]"
proof -
  have "ncols m = q" using assms(1,3) by (cases m) (simp_all add: ncols_def)
  then show ?thesis using assms by (simp add: diagonal_def)
qed

lemma down_from_not_Nil: "i < length a \<Longrightarrow> down_from i a \<noteq> []"
  using down_from_length[of i a] by auto

lemma down_from_hd: "i < length a \<Longrightarrow> hd (down_from i a) = a ! i"
  using down_from_nth[of i a 0] down_from_not_Nil[of i a]
  by (simp add: hd_conv_nth)

lemma slice_down:
  assumes "grid_ok e" "r < rows e" "c < columns e"
  shows "map (\<lambda>row. row ! c) (down_from r (board e)) = map (\<lambda>k. board e ! (r - k) ! c) [0..<Suc r]"
proof (rule nth_equalityI)
  have l: "r < length (board e)" using assms by (simp add: grid_ok_def)
  show "length (map (\<lambda>row. row ! c) (down_from r (board e))) = length (map (\<lambda>k. board e ! (r - k) ! c) [0..<Suc r])"
    using l by (simp add: down_from_length)
  fix i assume "i < length (map (\<lambda>row. row ! c) (down_from r (board e)))"
  then have i: "i \<le> r" using l by (simp add: down_from_length)
  then have n: "[0..<Suc r] ! i = i" using nth_upt[of 0 i "Suc r"] by simp
  have "i < length (down_from r (board e))" using i l by (simp add: down_from_length)
  then show "map (\<lambda>row. row ! c) (down_from r (board e)) ! i = map (\<lambda>k. board e ! (r - k) ! c) [0..<Suc r] ! i"
    using i l n by (simp add: down_from_nth del: upt_Suc)
qed

lemma slice_left:
  assumes "grid_ok e" "r < rows e" "c < columns e"
  shows "down_from c (board e ! r) = map (\<lambda>k. board e ! r ! (c - k)) [0..<Suc c]"
proof (rule nth_equalityI)
  have l: "c < length (board e ! r)" using assms by (simp add: grid_ok_def)
  show "length (down_from c (board e ! r)) = length (map (\<lambda>k. board e ! r ! (c - k)) [0..<Suc c])"
    using l by (simp add: down_from_length)
  fix i assume "i < length (down_from c (board e ! r))"
  then have i: "i \<le> c" using l by (simp add: down_from_length)
  then have n: "[0..<Suc c] ! i = i" using nth_upt[of 0 i "Suc c"] by simp
  show "down_from c (board e ! r) ! i = map (\<lambda>k. board e ! r ! (c - k)) [0..<Suc c] ! i"
    using i l n by (simp add: down_from_nth del: upt_Suc)
qed

lemma slice_right:
  assumes "grid_ok e" "r < rows e" "c < columns e"
  shows "drop c (board e ! r) = map (\<lambda>k. board e ! r ! (c + k)) [0..<columns e - c]"
proof (rule nth_equalityI)
  have l: "length (board e ! r) = columns e" using assms by (simp add: grid_ok_def)
  show "length (drop c (board e ! r)) = length (map (\<lambda>k. board e ! r ! (c + k)) [0..<columns e - c])"
    using l by simp
  fix i assume "i < length (drop c (board e ! r))"
  then have i: "i < columns e - c" using l by simp
  show "drop c (board e ! r) ! i = map (\<lambda>k. board e ! r ! (c + k)) [0..<columns e - c] ! i"
    using i l by simp
qed

lemma diag_up_right:
  assumes "grid_ok e" "r < rows e" "c < columns e"
  shows "diagonal (map (drop c) (drop r (board e)))
    = map (\<lambda>k. board e ! (r + k) ! (c + k)) [0..<min (rows e - r) (columns e - c)]"
proof (rule diagonal_eq)
  have l: "length (board e) = rows e" "\<forall>i<rows e. length (board e ! i) = columns e"
    using assms by (simp_all add: grid_ok_def)
  show "map (drop c) (drop r (board e)) \<noteq> []" using l assms by simp
  show "length (map (drop c) (drop r (board e))) = rows e - r" using l by simp
  show "length (hd (map (drop c) (drop r (board e)))) = columns e - c"
    using l assms by (simp add: hd_map hd_drop_conv_nth)
  show "min (rows e - r) (columns e - c) = min (rows e - r) (columns e - c)" ..
  show "\<forall>k<min (rows e - r) (columns e - c).
      map (drop c) (drop r (board e)) ! k ! k = board e ! (r + k) ! (c + k)"
  proof (intro allI impI)
    fix k assume k: "k < min (rows e - r) (columns e - c)"
    then have rk: "r + k < rows e" "c + k < columns e" by auto
    then have "c \<le> length (board e ! (r + k))" using l assms by simp
    then have "drop c (board e ! (r + k)) ! k = board e ! (r + k) ! (c + k)" by simp
    then show "map (drop c) (drop r (board e)) ! k ! k = board e ! (r + k) ! (c + k)"
      using k l(1) assms(2) by simp
  qed
qed

lemma diag_down_left:
  assumes "grid_ok e" "r < rows e" "c < columns e"
  shows "diagonal (map (down_from c) (down_from r (board e)))
    = map (\<lambda>k. board e ! (r - k) ! (c - k)) [0..<min (Suc r) (Suc c)]"
proof (rule diagonal_eq)
  have l: "length (board e) = rows e" "\<forall>i<rows e. length (board e ! i) = columns e"
    using assms by (simp_all add: grid_ok_def)
  have lr: "r < length (board e)" using l assms by simp
  show "map (down_from c) (down_from r (board e)) \<noteq> []"
    using down_from_not_Nil[OF lr] by simp
  show "length (map (down_from c) (down_from r (board e))) = Suc r"
    using lr by (simp add: down_from_length)
  show "length (hd (map (down_from c) (down_from r (board e)))) = Suc c"
    using l assms lr down_from_not_Nil[OF lr]
    by (simp add: hd_map down_from_hd down_from_length)
  show "min (Suc r) (Suc c) = min (Suc r) (Suc c)" ..
  show "\<forall>k<min (Suc r) (Suc c).
      map (down_from c) (down_from r (board e)) ! k ! k = board e ! (r - k) ! (c - k)"
    using l lr assms by (simp add: down_from_length down_from_nth)
qed

lemma diag_up_left:
  assumes "grid_ok e" "r < rows e" "c < columns e"
  shows "diagonal (map (down_from c) (drop r (board e)))
    = map (\<lambda>k. board e ! (r + k) ! (c - k)) [0..<min (rows e - r) (Suc c)]"
proof (rule diagonal_eq)
  have l: "length (board e) = rows e" "\<forall>i<rows e. length (board e ! i) = columns e"
    using assms by (simp_all add: grid_ok_def)
  show "map (down_from c) (drop r (board e)) \<noteq> []" using l assms by simp
  show "length (map (down_from c) (drop r (board e))) = rows e - r" using l by simp
  show "length (hd (map (down_from c) (drop r (board e)))) = Suc c"
    using l assms by (simp add: hd_map hd_drop_conv_nth down_from_length)
  show "min (rows e - r) (Suc c) = min (rows e - r) (Suc c)" ..
  show "\<forall>k<min (rows e - r) (Suc c).
      map (down_from c) (drop r (board e)) ! k ! k = board e ! (r + k) ! (c - k)"
  proof (intro allI impI)
    fix k assume k: "k < min (rows e - r) (Suc c)"
    then have "r + k < rows e" "k \<le> c" by auto
    moreover from this have "c < length (board e ! (r + k))" using l assms by simp
    ultimately show "map (down_from c) (drop r (board e)) ! k ! k = board e ! (r + k) ! (c - k)"
      using k l assms by (simp add: down_from_nth)
  qed
qed

lemma diag_down_right:
  assumes "grid_ok e" "r < rows e" "c < columns e"
  shows "diagonal (map (drop c) (down_from r (board e)))
    = map (\<lambda>k. board e ! (r - k) ! (c + k)) [0..<min (Suc r) (columns e - c)]"
proof (rule diagonal_eq)
  have l: "length (board e) = rows e" "\<forall>i<rows e. length (board e ! i) = columns e"
    using assms by (simp_all add: grid_ok_def)
  have lr: "r < length (board e)" using l assms by simp
  show "map (drop c) (down_from r (board e)) \<noteq> []"
    using down_from_not_Nil[OF lr] by simp
  show "length (map (drop c) (down_from r (board e))) = Suc r"
    using lr by (simp add: down_from_length)
  show "length (hd (map (drop c) (down_from r (board e)))) = columns e - c"
    using l assms lr down_from_not_Nil[OF lr]
    by (simp add: hd_map down_from_hd)
  show "min (Suc r) (columns e - c) = min (Suc r) (columns e - c)" ..
  show "\<forall>k<min (Suc r) (columns e - c).
      map (drop c) (down_from r (board e)) ! k ! k = board e ! (r - k) ! (c + k)"
    using l lr assms by (simp add: down_from_length down_from_nth)
qed

text \<open>
  An axis \<open>(dr, dc)\<close> through \<open>(r, c)\<close> whose two rays are the slices \<open>fslice\<close> (offsets
  \<open>0, 1, 2, ...\<close>) and \<open>bslice\<close> (offsets \<open>0, -1, -2, ...\<close>).
\<close>

lemma axis_through:
  assumes g: "grid_ok e" and r: "r < rows e" and c: "c < columns e"
    and f: "fslice = map ff [0..<nf]" "0 < nf" "nf \<le> rows e + columns e"
    and finb: "\<forall>k<nf. 0 \<le> int r + int k * dr \<and> int r + int k * dr < int (rows e)
                \<and> 0 \<le> int c + int k * dc \<and> int c + int k * dc < int (columns e)
                \<and> ff k = board e ! nat (int r + int k * dr) ! nat (int c + int k * dc)"
    and fout: "\<not> (0 \<le> int r + int nf * dr \<and> int r + int nf * dr < int (rows e)
                \<and> 0 \<le> int c + int nf * dc \<and> int c + int nf * dc < int (columns e))"
    and b: "bslice = map bf [0..<nb]" "0 < nb" "nb \<le> rows e + columns e"
    and binb: "\<forall>k<nb. 0 \<le> int r + (- int k) * dr \<and> int r + (- int k) * dr < int (rows e)
                \<and> 0 \<le> int c + (- int k) * dc \<and> int c + (- int k) * dc < int (columns e)
                \<and> bf k = board e ! nat (int r + (- int k) * dr) ! nat (int c + (- int k) * dc)"
    and bout: "\<not> (0 \<le> int r + (- int nb) * dr \<and> int r + (- int nb) * dr < int (rows e)
                \<and> 0 \<le> int c + (- int nb) * dc \<and> int c + (- int nb) * dc < int (columns e))"
  shows "run_through e r c (dr, dc)
    \<longleftrightarrow> win_length e \<le> line_length bslice + line_length fslice + 1"
proof -
  let ?Gz = "\<lambda>k. cell_at (board e) (int r + k * dr) (int c + k * dc)"
  let ?v = "board e ! r ! c"
  have zero: "?Gz 0 = Some ?v" using g r c by (simp add: cell_at_inside)
  note F = ray_line[where ri = "\<lambda>k. int r + int k * dr" and ci = "\<lambda>k. int c + int k * dc"
      and r = r and c = c, OF g f _ _ finb fout, simplified]
  note B = ray_line[where ri = "\<lambda>k. int r + (- int k) * dr" and ci = "\<lambda>k. int c + (- int k) * dc"
      and r = r and c = c, OF g b _ _ binb bout, simplified]
  have fwd: "(\<forall>k::nat. 1 \<le> k \<and> k \<le> h \<longrightarrow> ?Gz (int k) = Some ?v) \<longleftrightarrow> int h \<le> line_length fslice" for h
    using F(1)[of h] by simp
  have bwd: "(\<forall>k::nat. 1 \<le> k \<and> k \<le> h \<longrightarrow> ?Gz (- int k) = Some ?v) \<longleftrightarrow> int h \<le> line_length bslice" for h
    using B(1)[of h] by simp
  have "(\<exists>lo\<in>{..rows e + columns e}. \<exists>hi\<in>{..rows e + columns e}. win_length e \<le> int lo + int hi + 1
            \<and> (\<forall>k\<in>{- int lo..int hi}. ?Gz k = Some ?v))
         \<longleftrightarrow> win_length e \<le> line_length bslice + line_length fslice + 1"
    using F(2,3) B(2,3) by (intro axis_run[OF zero fwd bwd]) simp_all
  then show ?thesis by (simp add: run_through_def)
qed

lemma run_horizontal:
  assumes g: "grid_ok e" and r: "r < rows e" and c: "c < columns e"
  shows "run_through e r c (0, 1)
    \<longleftrightarrow> win_length e \<le> line_length (down_from c (board e ! r)) + line_length (drop c (board e ! r)) + 1"
proof (rule axis_through[OF g r c])
  show "drop c (board e ! r) = map (\<lambda>k. board e ! r ! (c + k)) [0..<columns e - c]"
    using assms by (rule slice_right)
  show "down_from c (board e ! r) = map (\<lambda>k. board e ! r ! (c - k)) [0..<Suc c]"
    using assms by (rule slice_left)
  show "0 < columns e - c" "columns e - c \<le> rows e + columns e" "0 < Suc c" "Suc c \<le> rows e + columns e"
    using r c by simp_all
  show "\<forall>k<columns e - c. 0 \<le> int r + int k * 0 \<and> int r + int k * 0 < int (rows e)
      \<and> 0 \<le> int c + int k * 1 \<and> int c + int k * 1 < int (columns e)
      \<and> board e ! r ! (c + k) = board e ! nat (int r + int k * 0) ! nat (int c + int k * 1)"
    using r c by (auto simp: nat_add_distrib)
  show "\<not> (0 \<le> int r + int (columns e - c) * 0 \<and> int r + int (columns e - c) * 0 < int (rows e)
      \<and> 0 \<le> int c + int (columns e - c) * 1 \<and> int c + int (columns e - c) * 1 < int (columns e))"
    using c by simp
  show "\<forall>k<Suc c. 0 \<le> int r + (- int k) * 0 \<and> int r + (- int k) * 0 < int (rows e)
      \<and> 0 \<le> int c + (- int k) * 1 \<and> int c + (- int k) * 1 < int (columns e)
      \<and> board e ! r ! (c - k) = board e ! nat (int r + (- int k) * 0) ! nat (int c + (- int k) * 1)"
    using r c by (auto simp: nat_diff_distrib)
  show "\<not> (0 \<le> int r + (- int (Suc c)) * 0 \<and> int r + (- int (Suc c)) * 0 < int (rows e)
      \<and> 0 \<le> int c + (- int (Suc c)) * 1 \<and> int c + (- int (Suc c)) * 1 < int (columns e))"
    by simp
qed

lemma run_diagonal:
  assumes g: "grid_ok e" and r: "r < rows e" and c: "c < columns e"
  shows "run_through e r c (1, 1)
    \<longleftrightarrow> win_length e \<le> line_length (diagonal (map (drop c) (drop r (board e))))
          + line_length (diagonal (map (down_from c) (down_from r (board e)))) + 1"
proof -
  have "run_through e r c (1, 1)
    \<longleftrightarrow> win_length e \<le> line_length (diagonal (map (down_from c) (down_from r (board e))))
          + line_length (diagonal (map (drop c) (drop r (board e)))) + 1"
  proof (rule axis_through[OF g r c])
    show "diagonal (map (drop c) (drop r (board e)))
      = map (\<lambda>k. board e ! (r + k) ! (c + k)) [0..<min (rows e - r) (columns e - c)]"
      using assms by (rule diag_up_right)
    show "diagonal (map (down_from c) (down_from r (board e)))
      = map (\<lambda>k. board e ! (r - k) ! (c - k)) [0..<min (Suc r) (Suc c)]"
      using assms by (rule diag_down_left)
    show "0 < min (rows e - r) (columns e - c)" "min (rows e - r) (columns e - c) \<le> rows e + columns e"
      "0 < min (Suc r) (Suc c)" "min (Suc r) (Suc c) \<le> rows e + columns e"
      using r c by simp_all
    show "\<forall>k<min (rows e - r) (columns e - c). 0 \<le> int r + int k * 1 \<and> int r + int k * 1 < int (rows e)
        \<and> 0 \<le> int c + int k * 1 \<and> int c + int k * 1 < int (columns e)
        \<and> board e ! (r + k) ! (c + k) = board e ! nat (int r + int k * 1) ! nat (int c + int k * 1)"
      using r c by (auto simp: nat_add_distrib)
    show "\<not> (0 \<le> int r + int (min (rows e - r) (columns e - c)) * 1
          \<and> int r + int (min (rows e - r) (columns e - c)) * 1 < int (rows e)
        \<and> 0 \<le> int c + int (min (rows e - r) (columns e - c)) * 1
          \<and> int c + int (min (rows e - r) (columns e - c)) * 1 < int (columns e))"
      using r c by (auto simp: min_def)
    show "\<forall>k<min (Suc r) (Suc c). 0 \<le> int r + (- int k) * 1 \<and> int r + (- int k) * 1 < int (rows e)
        \<and> 0 \<le> int c + (- int k) * 1 \<and> int c + (- int k) * 1 < int (columns e)
        \<and> board e ! (r - k) ! (c - k) = board e ! nat (int r + (- int k) * 1) ! nat (int c + (- int k) * 1)"
      using r c by (auto simp: nat_diff_distrib)
    show "\<not> (0 \<le> int r + (- int (min (Suc r) (Suc c))) * 1
          \<and> int r + (- int (min (Suc r) (Suc c))) * 1 < int (rows e)
        \<and> 0 \<le> int c + (- int (min (Suc r) (Suc c))) * 1
          \<and> int c + (- int (min (Suc r) (Suc c))) * 1 < int (columns e))"
      by (auto simp: min_def)
  qed
  then show ?thesis by (simp add: add.commute)
qed

lemma run_antidiagonal:
  assumes g: "grid_ok e" and r: "r < rows e" and c: "c < columns e"
  shows "run_through e r c (1, - 1)
    \<longleftrightarrow> win_length e \<le> line_length (diagonal (map (down_from c) (drop r (board e))))
          + line_length (diagonal (map (drop c) (down_from r (board e)))) + 1"
proof -
  have "run_through e r c (1, - 1)
    \<longleftrightarrow> win_length e \<le> line_length (diagonal (map (drop c) (down_from r (board e))))
          + line_length (diagonal (map (down_from c) (drop r (board e)))) + 1"
  proof (rule axis_through[OF g r c])
    show "diagonal (map (down_from c) (drop r (board e)))
      = map (\<lambda>k. board e ! (r + k) ! (c - k)) [0..<min (rows e - r) (Suc c)]"
      using assms by (rule diag_up_left)
    show "diagonal (map (drop c) (down_from r (board e)))
      = map (\<lambda>k. board e ! (r - k) ! (c + k)) [0..<min (Suc r) (columns e - c)]"
      using assms by (rule diag_down_right)
    show "0 < min (rows e - r) (Suc c)" "min (rows e - r) (Suc c) \<le> rows e + columns e"
      "0 < min (Suc r) (columns e - c)" "min (Suc r) (columns e - c) \<le> rows e + columns e"
      using r c by simp_all
    show "\<forall>k<min (rows e - r) (Suc c). 0 \<le> int r + int k * 1 \<and> int r + int k * 1 < int (rows e)
        \<and> 0 \<le> int c + int k * (- 1) \<and> int c + int k * (- 1) < int (columns e)
        \<and> board e ! (r + k) ! (c - k) = board e ! nat (int r + int k * 1) ! nat (int c + int k * (- 1))"
      using r c by (auto simp: nat_add_distrib nat_diff_distrib)
    show "\<not> (0 \<le> int r + int (min (rows e - r) (Suc c)) * 1
          \<and> int r + int (min (rows e - r) (Suc c)) * 1 < int (rows e)
        \<and> 0 \<le> int c + int (min (rows e - r) (Suc c)) * (- 1)
          \<and> int c + int (min (rows e - r) (Suc c)) * (- 1) < int (columns e))"
      using r c by (auto simp: min_def)
    show "\<forall>k<min (Suc r) (columns e - c). 0 \<le> int r + (- int k) * 1 \<and> int r + (- int k) * 1 < int (rows e)
        \<and> 0 \<le> int c + (- int k) * (- 1) \<and> int c + (- int k) * (- 1) < int (columns e)
        \<and> board e ! (r - k) ! (c + k) = board e ! nat (int r + (- int k) * 1) ! nat (int c + (- int k) * (- 1))"
      using r c by (auto simp: nat_add_distrib nat_diff_distrib)
    show "\<not> (0 \<le> int r + (- int (min (Suc r) (columns e - c))) * 1
          \<and> int r + (- int (min (Suc r) (columns e - c))) * 1 < int (rows e)
        \<and> 0 \<le> int c + (- int (min (Suc r) (columns e - c))) * (- 1)
          \<and> int c + (- int (min (Suc r) (columns e - c))) * (- 1) < int (columns e))"
      using r c by (auto simp: min_def)
  qed
  then show ?thesis by (simp add: add.commute)
qed

text \<open>
  The vertical axis: \<open>_is_win\<close> counts downwards only. Above a piece that has just landed
  the column is empty, so no run extends upwards.
\<close>

lemma run_vertical:
  assumes g: "grid_ok e" and r: "r < rows e" and c: "c < columns e"
    and v: "board e ! r ! c \<noteq> 0"
    and above: "\<forall>r'. r < r' \<and> r' < rows e \<longrightarrow> board e ! r' ! c = 0"
  shows "run_through e r c (1, 0)
    \<longleftrightarrow> win_length e \<le> line_length (map (\<lambda>row. row ! c) (down_from r (board e))) + 1"
proof -
  let ?Gz = "\<lambda>k. cell_at (board e) (int r + k * 1) (int c + k * 0)"
  let ?v = "board e ! r ! c"
  let ?down = "map (\<lambda>row. row ! c) (down_from r (board e))"
  have zero: "?Gz 0 = Some ?v" using g r c by (simp add: cell_at_inside)
  have up1: "?Gz (int 1) \<noteq> Some ?v"
  proof (cases "Suc r < rows e")
    case True
    have "nat (1 + int r) = Suc r" by simp
    then have "?Gz (int 1) = Some (board e ! Suc r ! c)"
      using True g c cell_at_inside[of e "int (Suc r)" "int c"] by (simp add: add.commute)
    then show ?thesis using above True v by simp
  next
    case False
    then have "?Gz (int 1) = None" using g by (intro cell_at_outside) simp_all
    then show ?thesis by simp
  qed
  have fwd: "(\<forall>k::nat. 1 \<le> k \<and> k \<le> h \<longrightarrow> ?Gz (int k) = Some ?v) \<longleftrightarrow> int h \<le> 0" for h
  proof (cases "h = 0")
    case True
    then show ?thesis by simp
  next
    case False
    then have "1 \<le> (1::nat) \<and> 1 \<le> h" by simp
    then show ?thesis using up1 False by (metis of_nat_le_0_iff)
  qed
  note B = ray_line[where ri = "\<lambda>k. int r + (- int k) * 1" and ci = "\<lambda>k. int c + (- int k) * 0"
      and r = r and c = c and slice = ?down and n = "Suc r" and f = "\<lambda>k. board e ! (r - k) ! c" and e = e]
  have binb: "\<forall>k<Suc r. 0 \<le> int r + (- int k) * 1 \<and> int r + (- int k) * 1 < int (rows e)
        \<and> 0 \<le> int c + (- int k) * 0 \<and> int c + (- int k) * 0 < int (columns e)
        \<and> board e ! (r - k) ! c = board e ! nat (int r + (- int k) * 1) ! nat (int c + (- int k) * 0)"
    using r c by (auto simp: nat_diff_distrib)
  have bout: "\<not> (0 \<le> int r + (- int (Suc r)) * 1 \<and> int r + (- int (Suc r)) * 1 < int (rows e)
        \<and> 0 \<le> int c + (- int (Suc r)) * 0 \<and> int c + (- int (Suc r)) * 0 < int (columns e))"
    by simp
  have sl: "?down = map (\<lambda>k. board e ! (r - k) ! c) [0..<Suc r]" using g r c by (rule slice_down)
  have n: "0 < Suc r" "Suc r \<le> rows e + columns e" using r by simp_all
  note B' = B[OF g sl n _ _ binb bout, simplified]
  have bwd: "(\<forall>k::nat. 1 \<le> k \<and> k \<le> h \<longrightarrow> ?Gz (- int k) = Some ?v) \<longleftrightarrow> int h \<le> line_length ?down" for h
    using B'(1)[of h] by simp
  have "(\<exists>lo\<in>{..rows e + columns e}. \<exists>hi\<in>{..rows e + columns e}. win_length e \<le> int lo + int hi + 1
            \<and> (\<forall>k\<in>{- int lo..int hi}. ?Gz k = Some ?v))
         \<longleftrightarrow> win_length e \<le> line_length ?down + 0 + 1"
    using B'(2,3) by (intro axis_run[OF zero fwd bwd]) simp_all
  then show ?thesis by (simp add: run_through_def)
qed

lemma is_win_rescan:
  assumes g: "grid_ok e" and r: "r < rows e" and c: "c < columns e"
    and v: "board e ! r ! c \<noteq> 0"
    and above: "\<forall>r'. r < r' \<and> r' < rows e \<longrightarrow> board e ! r' ! c = 0"
  shows "is_win e r c = Inr (rescan_win e r c)"
proof -
  have pos: "0 < rows e" using r by simp
  have n: "c < ncols (board e)" "r < length (board e)"
    using g r c pos by (simp_all add: ncols_grid_ok) (simp add: grid_ok_def)
  have "rescan_win e r c \<longleftrightarrow> run_through e r c (1, 0) \<or> run_through e r c (0, 1)
      \<or> run_through e r c (1, 1) \<or> run_through e r c (1, - 1)"
    by (simp add: rescan_win_def)
  then show ?thesis
    using n run_vertical[OF assms] run_horizontal[OF g r c] run_diagonal[OF g r c]
      run_antidiagonal[OF g r c]
    by (simp add: is_win_def Let_def)
qed

lemma opponent_move_success:
  assumes "grid_ok e" "opponent_move e = (Inr (r, col), e')"
  shows "\<exists>q. contains (columns e) col \<and> lowest_empty_row e (nat col) r
    \<and> e' = drop_at (e\<lparr>opponent := q\<rparr>) r (nat col) (- 1)"
proof (cases "rows e = 0")
  case True
  then show ?thesis using assms by (simp add: opponent_move_no_rows)
next
  case False
  then have pos: "0 < rows e" by simp
  obtain c q where cq:
    "call (opponent e) (get_observation e (- 1)) (map (\<lambda>p. p = 0) (board e ! (rows e - 1))) = (c, q)"
    by (cases "call (opponent e) (get_observation e (- 1)) (map (\<lambda>p. p = 0) (board e ! (rows e - 1)))")
  show ?thesis
  proof (cases "contains (columns e) c \<and> board e ! (rows e - 1) ! nat c = 0")
    case True
    then obtain r0 where r0: "lowest_empty_row e (nat c) r0"
      "opponent_move e = (Inr (r0, c), drop_at (e\<lparr>opponent := q\<rparr>) r0 (nat c) (- 1))"
      using opponent_move_legal[OF assms(1) pos cq] by blast
    then show ?thesis using assms(2) True by auto
  next
    case False
    then have "opponent_move e = (Inl (InvalidOpponentMove c), e\<lparr>opponent := q\<rparr>)"
      using opponent_move_illegal[OF assms(1) pos cq] by blast
    then show ?thesis using assms(2) by simp
  qed
qed

lemma is_win_landed:
  assumes s: "state_ok e" and c: "c < columns e" and l: "lowest_empty_row e c r"
    and p: "piece = 1 \<or> piece = - 1"
  shows "is_win (drop_at e r c piece) r c = Inr (rescan_win (drop_at e r c piece) r c)"
proof (rule is_win_rescan)
  have g: "grid_ok e" and st: "settled e" using s by (simp_all add: state_ok_def)
  have r: "r < rows e" "board e ! r ! c = 0" using l by (simp_all add: lowest_empty_row_def)
  have len: "r < length (board e)" "c < length (board e ! r)" using g r(1) c by (simp_all add: grid_ok_def)
  show "grid_ok (drop_at e r c piece)" using g by (rule grid_ok_drop_at)
  show "r < rows (drop_at e r c piece)" "c < columns (drop_at e r c piece)" using r c by simp_all
  show "board (drop_at e r c piece) ! r ! c \<noteq> 0" using p len by (auto simp: setitem_nth)
  show "\<forall>r'. r < r' \<and> r' < rows (drop_at e r c piece) \<longrightarrow> board (drop_at e r c piece) ! r' ! c = 0"
  proof (intro allI impI)
    fix r' assume a: "r < r' \<and> r' < rows (drop_at e r c piece)"
    then have "r < r'" "r' < rows e" by simp_all
    then have "board e ! r' ! c = 0" using st r c unfolding settled_def by blast
    then show "board (drop_at e r c piece) ! r' ! c = 0" using a len by (simp add: setitem_nth)
  qed
qed

lemma step_truncated: "step e a = (Inr res, e') \<Longrightarrow> \<not> truncated res"
  by (auto simp: step_def result_def split: if_splits option.splits prod.splits sum.splits bool.splits)

lemma cell_at_SomeD:
  assumes "grid_ok e" "cell_at (board e) x y = Some v"
  shows "0 \<le> x \<and> x < int (rows e) \<and> 0 \<le> y \<and> y < int (columns e) \<and> board e ! nat x ! nat y = v"
proof (cases "0 \<le> x \<and> x < int (rows e) \<and> 0 \<le> y \<and> y < int (columns e)")
  case True
  then show ?thesis using assms cell_at_inside[of e x y] by simp
next
  case False
  then show ?thesis using assms cell_at_outside[of e x y] by simp
qed

text \<open>A piece with no other piece on the board is in no run of two or more.\<close>

lemma lone_piece_no_run:
  assumes g: "grid_ok e" and r: "r < rows e" and c: "c < columns e"
    and lone: "\<forall>i<rows e. \<forall>j<columns e. (i, j) \<noteq> (r, c) \<longrightarrow> board e ! i ! j = 0"
    and v: "board e ! r ! c \<noteq> 0" and w: "2 \<le> win_length e"
    and d: "(dr, dc) \<noteq> (0, 0)"
  shows "\<not> run_through e r c (dr, dc)"
proof
  assume "run_through e r c (dr, dc)"
  then obtain lo hi :: nat where run: "win_length e \<le> int lo + int hi + 1"
    "\<forall>k\<in>{- int lo..int hi}. cell_at (board e) (int r + k * dr) (int c + k * dc) = Some (board e ! r ! c)"
    unfolding run_through_def by auto
  have "1 \<le> lo \<or> 1 \<le> hi" using run(1) w by linarith
  then obtain k :: int where k: "k = 1 \<or> k = - 1" "k \<in> {- int lo..int hi}" by force
  then have "cell_at (board e) (int r + k * dr) (int c + k * dc) = Some (board e ! r ! c)"
    using run(2) by blast
  from cell_at_SomeD[OF g this]
  have b: "0 \<le> int r + k * dr" "int r + k * dr < int (rows e)" "0 \<le> int c + k * dc"
    "int c + k * dc < int (columns e)"
    "board e ! nat (int r + k * dr) ! nat (int c + k * dc) = board e ! r ! c" by simp_all
  have "(nat (int r + k * dr), nat (int c + k * dc)) \<noteq> (r, c)"
    using k(1) d b(1,3) by auto
  moreover have "nat (int r + k * dr) < rows e" "nat (int c + k * dc) < columns e"
    using b by simp_all
  ultimately have "board e ! nat (int r + k * dr) ! nat (int c + k * dc) = 0" using lone by blast
  then show False using b(5) v by simp
qed

lemma lone_piece_no_win:
  assumes g: "grid_ok e" and r: "r < rows e" and c: "c < columns e"
    and lone: "\<forall>i<rows e. \<forall>j<columns e. (i, j) \<noteq> (r, c) \<longrightarrow> board e ! i ! j = 0"
    and v: "board e ! r ! c \<noteq> 0" and w: "2 \<le> win_length e"
  shows "is_win e r c = Inr False"
proof -
  have "\<not> rescan_win e r c"
    using lone_piece_no_run[OF assms] by (simp add: rescan_win_def)
  moreover have "\<forall>r'. r < r' \<and> r' < rows e \<longrightarrow> board e ! r' ! c = 0" using lone c by auto
  ultimately show ?thesis using is_win_rescan[OF g r c v] by simp
qed

lemma cleared_fields [simp]:
  "rows (cleared e opp) = rows e" "columns (cleared e opp) = columns e"
  "win_length (cleared e opp) = win_length e" "opponent (cleared e opp) = opp"
  "num_moves (cleared e opp) = 0"
  "board (cleared e opp) = replicate (rows e) (replicate (columns e) 0)"
  by (simp_all add: cleared_def)

lemma state_ok_cleared': "state_ok (cleared e opp)"
  unfolding cleared_def by (rule state_ok_cleared)

lemma reset_cleared:
  "reset e opp coin =
     (if coin then
        (case opponent_move (cleared e opp) of
           (Inl err, e2) \<Rightarrow> (Inl err, e2)
         | (Inr rc, e2) \<Rightarrow> (Inr (get_observation e2 1), e2))
      else (Inr (get_observation (cleared e opp) 1), cleared e opp))"
  by (simp add: reset_def cleared_def Let_def)

text \<open>The opening move of the opponent, when it is accepted.\<close>

lemma opening_move:
  assumes "opponent_move (cleared e opp) = (Inr (r, col), e2)"
  shows "contains (columns e) col \<and> 0 < rows e \<and> r = 0
    \<and> board e2 = setitem (board (cleared e opp)) 0 (nat col) (- 1) \<and> num_moves e2 = 1
    \<and> rows e2 = rows e \<and> columns e2 = columns e \<and> win_length e2 = win_length e
    \<and> occupied (board e2) = 1
    \<and> (2 \<le> win_length e \<longrightarrow> is_win e2 r (nat col) = Inr False)"
proof -
  let ?c = "cleared e opp"
  have s: "state_ok ?c" by (rule state_ok_cleared')
  then have g: "grid_ok ?c" by (simp add: state_ok_def)
  obtain q where q: "contains (columns ?c) col" "lowest_empty_row ?c (nat col) r"
    "e2 = drop_at (?c\<lparr>opponent := q\<rparr>) r (nat col) (- 1)"
    using opponent_move_success[OF g assms] by blast
  have c: "nat col < columns e" using q(1) by (auto simp: contains_def)
  have rr: "r < rows e" using q(2) by (simp add: lowest_empty_row_def)
  have r0: "r = 0"
  proof (rule ccontr)
    assume "r \<noteq> 0"
    then have "0 < r" by simp
    then have "board ?c ! 0 ! nat col \<noteq> 0" using q(2) unfolding lowest_empty_row_def by blast
    then show False using rr c by simp
  qed
  have s2: "state_ok e2" unfolding q(3) using s c q(2) by (intro state_ok_drop_at) simp_all
  then have g2: "grid_ok e2" by (simp add: state_ok_def)
  have n2: "num_moves e2 = 1" unfolding q(3) by simp
  have o2: "occupied (board e2) = 1" using s2 n2 by (simp add: state_ok_def)
  have b2: "board e2 = setitem (board ?c) 0 (nat col) (- 1)" unfolding q(3) using r0 by simp
  have nth: "board e2 ! i ! j = (if i = 0 \<and> j = nat col then - 1 else board ?c ! i ! j)" for i j
    unfolding b2 using rr c by (intro setitem_nth) simp_all
  have win: "is_win e2 r (nat col) = Inr False" if w: "2 \<le> win_length e"
  proof (rule lone_piece_no_win[OF g2])
    show "r < rows e2" "nat col < columns e2" unfolding q(3) using rr c by simp_all
    show "\<forall>i<rows e2. \<forall>j<columns e2. (i, j) \<noteq> (r, nat col) \<longrightarrow> board e2 ! i ! j = 0"
      using nth r0 unfolding q(3) by simp
    show "board e2 ! r ! nat col \<noteq> 0" using nth[of 0 "nat col"] r0 by simp
    show "2 \<le> win_length e2" unfolding q(3) using w by simp
  qed
  show ?thesis using q(1) rr r0 b2 n2 o2 win unfolding q(3) by simp
qed

lemma opening_refused:
  assumes "opponent_move (cleared e opp) = (Inl err, e2)"
  shows "board e2 = board (cleared e opp) \<and> num_moves e2 = 0
    \<and> rows e2 = rows e \<and> columns e2 = columns e \<and> win_length e2 = win_length e"
proof -
  let ?c = "cleared e opp"
  have g: "grid_ok ?c" using state_ok_cleared'[of e opp] by (simp add: state_ok_def)
  show ?thesis
  proof (cases "rows e = 0")
    case True
    then have "opponent_move ?c = (Inl IndexError, ?c)" using g by (intro opponent_move_no_rows) simp_all
    then show ?thesis using assms by simp
  next
    case False
    then have pos: "0 < rows ?c" by simp
    obtain col q where cq:
      "call (opponent ?c) (get_observation ?c (- 1)) (map (\<lambda>p. p = 0) (board ?c ! (rows ?c - 1))) = (col, q)"
      by (cases "call (opponent ?c) (get_observation ?c (- 1)) (map (\<lambda>p. p = 0) (board ?c ! (rows ?c - 1)))")
    show ?thesis
    proof (cases "contains (columns ?c) col \<and> board ?c ! (rows ?c - 1) ! nat col = 0")
      case True
      then obtain r where "opponent_move ?c = (Inr (r, col), drop_at (?c\<lparr>opponent := q\<rparr>) r (nat col) (- 1))"
        using opponent_move_legal[OF g pos cq] by blast
      then show ?thesis using assms by simp
    next
      case False
      then have "opponent_move ?c = (Inl (InvalidOpponentMove col), ?c\<lparr>opponent := q\<rparr>)"
        using opponent_move_illegal[OF g pos cq] by blast
      then show ?thesis using assms by auto
    qed
  qed
qed

text \<open>
  The bound on \<open>lo\<close> and \<open>hi\<close> in \<open>run_through\<close> loses nothing: a segment of cells of the
  board along one of the four axes has no more than \<open>rows + columns\<close> cells on either side.
\<close>

lemma run_through_unbounded:
  assumes g: "grid_ok e" and d: "(dr, dc) \<in> {(1, 0), (0, 1), (1, 1), (1, - 1)}"
  shows "run_through e r c (dr, dc) \<longleftrightarrow>
    (\<exists>lo hi :: nat. win_length e \<le> int lo + int hi + 1
       \<and> (\<forall>k \<in> {- int lo..int hi}.
             cell_at (board e) (int r + k * dr) (int c + k * dc) = Some (board e ! r ! c)))"
proof
  assume "run_through e r c (dr, dc)"
  then show "\<exists>lo hi :: nat. win_length e \<le> int lo + int hi + 1
       \<and> (\<forall>k \<in> {- int lo..int hi}.
             cell_at (board e) (int r + k * dr) (int c + k * dc) = Some (board e ! r ! c))"
    unfolding run_through_def by auto
next
  assume "\<exists>lo hi :: nat. win_length e \<le> int lo + int hi + 1
       \<and> (\<forall>k \<in> {- int lo..int hi}.
             cell_at (board e) (int r + k * dr) (int c + k * dc) = Some (board e ! r ! c))"
  then obtain lo hi :: nat where run: "win_length e \<le> int lo + int hi + 1"
    "\<forall>k \<in> {- int lo..int hi}.
       cell_at (board e) (int r + k * dr) (int c + k * dc) = Some (board e ! r ! c)"
    by blast
  have "(0::int) \<in> {- int lo..int hi}" by simp
  then have "cell_at (board e) (int r + 0 * dr) (int c + 0 * dc) = Some (board e ! r ! c)"
    using run(2) by blast
  from cell_at_SomeD[OF g this] have z: "r < rows e" "c < columns e" by simp_all
  have "- int lo \<in> {- int lo..int hi}" by simp
  then have "cell_at (board e) (int r + (- int lo) * dr) (int c + (- int lo) * dc) = Some (board e ! r ! c)"
    using run(2) by blast
  from cell_at_SomeD[OF g this] have bl: "0 \<le> int r + (- int lo) * dr"
    "0 \<le> int c + (- int lo) * dc" "int c + (- int lo) * dc < int (columns e)" by simp_all
  have lo: "lo \<le> rows e + columns e"
    using d bl z by (elim insertE emptyE) auto
  have "int hi \<in> {- int lo..int hi}" by simp
  then have "cell_at (board e) (int r + int hi * dr) (int c + int hi * dc) = Some (board e ! r ! c)"
    using run(2) by blast
  from cell_at_SomeD[OF g this] have bh: "int r + int hi * dr < int (rows e)"
    "0 \<le> int c + int hi * dc" "int c + int hi * dc < int (columns e)" by simp_all
  have hi: "hi \<le> rows e + columns e"
    using d bh z by (elim insertE emptyE) auto
  show "run_through e r c (dr, dc)"
    unfolding run_through_def using run lo hi by auto
qed

section \<open>The claims\<close>

text \<open>
  C1. On a well-formed grid (every reachable one is), for a cell \<open>(row, column)\<close> of the
  grid that holds a piece and has only empty cells above it in its column, as the piece
  just placed has, \<open>_is_win(row, column)\<close> returns, and returns true exactly when the
  rescan finds, along the vertical, the horizontal or one of the two diagonal axes, a
  segment of at least \<open>win_length\<close> cells of the board through \<open>(row, column)\<close> that all
  hold that piece's value.
\<close>

theorem is_win_iff_rescan:
  assumes "grid_ok e" "row < rows e" "column < columns e"
    and "board e ! row ! column \<noteq> 0"
    and "\<forall>r'. row < r' \<and> r' < rows e \<longrightarrow> board e ! r' ! column = 0"
  shows "is_win e row column = Inr (rescan_win e row column)"
  using assms by (rule is_win_rescan)

theorem is_win_iff_rescan_witness:
  "grid_ok (game 3 3 2 (always 0) [[1, - 1, 0], [1, 0, 0], [0, 0, 0]] 3)
   \<and> is_win (game 3 3 2 (always 0) [[1, - 1, 0], [1, 0, 0], [0, 0, 0]] 3) 1 0 = Inr True
   \<and> rescan_win (game 3 3 2 (always 0) [[1, - 1, 0], [1, 0, 0], [0, 0, 0]] 3) 1 0
   \<and> is_win (game 3 3 3 (always 0) [[1, - 1, - 1], [0, - 1, - 1], [0, 0, 1]] 6) 2 2 = Inr False
   \<and> \<not> rescan_win (game 3 3 3 (always 0) [[1, - 1, - 1], [0, - 1, - 1], [0, 0, 1]] 6) 2 2"
proof -
  let ?g = "game 3 3 2 (always 0) [[1, - 1, 0], [1, 0, 0], [0, 0, 0]] 3"
  let ?h = "game 3 3 3 (always 0) [[1, - 1, - 1], [0, - 1, - 1], [0, 0, 1]] 6"
  have g: "grid_ok ?g" "grid_ok ?h" by (simp_all add: game_def grid_ok_def)
  have b: "(1::nat) < rows ?g" "(0::nat) < columns ?g" "board ?g ! 1 ! 0 \<noteq> 0"
    "(2::nat) < rows ?h" "(2::nat) < columns ?h" "board ?h ! 2 ! 2 \<noteq> 0"
    by (simp_all add: game_def)
  have a: "\<forall>r'. 1 < r' \<and> r' < rows ?g \<longrightarrow> board ?g ! r' ! 0 = 0"
  proof (intro allI impI)
    fix r' assume "1 < r' \<and> r' < rows ?g"
    then have "r' = 2" by (simp add: game_def)
    then show "board ?g ! r' ! 0 = 0" by (simp add: game_def)
  qed
  have a': "\<forall>r'. 2 < r' \<and> r' < rows ?h \<longrightarrow> board ?h ! r' ! 2 = 0"
    by (simp add: game_def)
  have w: "is_win ?g 1 0 = Inr True" "is_win ?h 2 2 = Inr False"
    by (simp_all add: run_defs eval_nat_numeral)
  show ?thesis
    using is_win_iff_rescan[OF g(1) b(1,2,3) a] is_win_iff_rescan[OF g(2) b(4,5,6) a'] g(1) w
    by simp
qed

text \<open>
  C2. Take a reachable state and a legal action \<open>a\<close>: in \<open>[0, columns)\<close>, the top cell of
  its column empty. The agent's piece lands on the lowest empty row \<open>r\<close> of the column,
  leaving the state \<open>e1\<close>. If that piece completes a run of \<open>win_length\<close> (the rescan finds
  one through it), \<open>step\<close> returns reward \<open>1\<close>, terminated; otherwise, if the board is then
  full, reward \<open>0\<close>, terminated; otherwise the opponent moves. If its move is refused,
  \<open>step\<close> raises that error. Else its piece lands at \<open>(orow, ocol)\<close>, leaving \<open>e2\<close>: if it
  completes a run, reward \<open>-1\<close>, terminated; otherwise, if the board is then full, reward
  \<open>0\<close>, terminated; otherwise reward \<open>0\<close>, not terminated. The observation returned is
  that of the final state for the agent. Whatever the state and the action, the
  \<open>truncated\<close> flag of a returned result is false.
\<close>

theorem step_rewards:
  "(reachable e \<and> 0 < rows e \<and> contains (columns e) a \<and> board e ! (rows e - 1) ! nat a = 0 \<longrightarrow>
     (\<exists>r. lowest_empty_row e (nat a) r \<and>
        (let e1 = drop_at e r (nat a) 1 in
         if rescan_win e1 r (nat a)
         then step e a = (Inr \<lparr>obs = get_observation e1 1, reward = 1,
                               terminated = True, truncated = False\<rparr>, e1)
         else if board_full (board e1)
         then step e a = (Inr \<lparr>obs = get_observation e1 1, reward = 0,
                               terminated = True, truncated = False\<rparr>, e1)
         else (case opponent_move e1 of
                 (Inl err, e2) \<Rightarrow> step e a = (Inl err, e2)
               | (Inr (orow, ocol), e2) \<Rightarrow>
                   if rescan_win e2 orow (nat ocol)
                   then step e a = (Inr \<lparr>obs = get_observation e2 1, reward = - 1,
                                         terminated = True, truncated = False\<rparr>, e2)
                   else if board_full (board e2)
                   then step e a = (Inr \<lparr>obs = get_observation e2 1, reward = 0,
                                         terminated = True, truncated = False\<rparr>, e2)
                   else step e a = (Inr \<lparr>obs = get_observation e2 1, reward = 0,
                                         terminated = False, truncated = False\<rparr>, e2)))))
   \<and> (\<forall>res e'. step e a = (Inr res, e') \<longrightarrow> \<not> truncated res)"
proof (intro conjI impI allI)
  fix res e' assume "step e a = (Inr res, e')"
  then show "\<not> truncated res" by (rule step_truncated)
next
  assume h: "reachable e \<and> 0 < rows e \<and> contains (columns e) a \<and> board e ! (rows e - 1) ! nat a = 0"
  then have s: "state_ok e" using reachable_state_ok by blast
  then have g: "grid_ok e" by (simp add: state_ok_def)
  have c: "nat a < columns e" using h by (auto simp: contains_def)
  obtain r w where r: "lowest_empty_row e (nat a) r"
    "is_win (drop_at e r (nat a) 1) r (nat a) = Inr w"
    "step e a = after_agent (drop_at e r (nat a) 1) w"
    using step_legal[of e a] g h by blast
  let ?e1 = "drop_at e r (nat a) 1"
  have s1: "state_ok ?e1" using s c r(1) by (intro state_ok_drop_at) simp_all
  then have g1: "grid_ok ?e1" by (simp add: state_ok_def)
  have w: "w = rescan_win ?e1 r (nat a)" using is_win_landed[OF s c r(1), of 1] r(2) by simp
  have f1: "board_full (board ?e1) \<longleftrightarrow> num_moves ?e1 = int (rows ?e1) * int (columns ?e1)"
    using s1 by (rule full_iff_count)
  have opp: "if rescan_win e2 orow (nat ocol)
      then after_agent ?e1 False = (Inr \<lparr>obs = get_observation e2 1, reward = - 1,
                                         terminated = True, truncated = False\<rparr>, e2)
      else if board_full (board e2)
      then after_agent ?e1 False = (Inr \<lparr>obs = get_observation e2 1, reward = 0,
                                         terminated = True, truncated = False\<rparr>, e2)
      else after_agent ?e1 False = (Inr \<lparr>obs = get_observation e2 1, reward = 0,
                                         terminated = False, truncated = False\<rparr>, e2)"
    if o: "opponent_move ?e1 = (Inr (orow, ocol), e2)" and nf: "\<not> board_full (board ?e1)"
    for orow ocol e2
  proof -
    obtain q where q: "contains (columns ?e1) ocol" "lowest_empty_row ?e1 (nat ocol) orow"
      "e2 = drop_at (?e1\<lparr>opponent := q\<rparr>) orow (nat ocol) (- 1)"
      using opponent_move_success[OF g1 o] by blast
    let ?e1q = "?e1\<lparr>opponent := q\<rparr>"
    have sq: "state_ok ?e1q" using s1 by simp
    have cq: "nat ocol < columns ?e1q" using q(1) by (auto simp: contains_def)
    have lq: "lowest_empty_row ?e1q (nat ocol) orow" using q(2) by simp
    have s2: "state_ok e2" unfolding q(3) using sq cq lq by (intro state_ok_drop_at) simp_all
    have w2: "is_win e2 orow (nat ocol) = Inr (rescan_win e2 orow (nat ocol))"
      unfolding q(3) using sq cq lq by (intro is_win_landed) simp_all
    have f2: "board_full (board e2) \<longleftrightarrow> num_moves e2 = int (rows e2) * int (columns e2)"
      using s2 by (rule full_iff_count)
    show ?thesis using o nf f1 f2 w2 by (simp add: after_agent_def result_def)
  qed
  have "if rescan_win ?e1 r (nat a)
         then step e a = (Inr \<lparr>obs = get_observation ?e1 1, reward = 1,
                               terminated = True, truncated = False\<rparr>, ?e1)
         else if board_full (board ?e1)
         then step e a = (Inr \<lparr>obs = get_observation ?e1 1, reward = 0,
                               terminated = True, truncated = False\<rparr>, ?e1)
         else (case opponent_move ?e1 of
                 (Inl err, e2) \<Rightarrow> step e a = (Inl err, e2)
               | (Inr (orow, ocol), e2) \<Rightarrow>
                   if rescan_win e2 orow (nat ocol)
                   then step e a = (Inr \<lparr>obs = get_observation e2 1, reward = - 1,
                                         terminated = True, truncated = False\<rparr>, e2)
                   else if board_full (board e2)
                   then step e a = (Inr \<lparr>obs = get_observation e2 1, reward = 0,
                                         terminated = True, truncated = False\<rparr>, e2)
                   else step e a = (Inr \<lparr>obs = get_observation e2 1, reward = 0,
                                         terminated = False, truncated = False\<rparr>, e2))"
  proof (cases "rescan_win ?e1 r (nat a)")
    case True
    then show ?thesis using r(3) w by (simp add: after_agent_def result_def)
  next
    case nw: False
    show ?thesis
    proof (cases "board_full (board ?e1)")
      case True
      then show ?thesis using nw r(3) w f1 by (simp add: after_agent_def result_def)
    next
      case nf: False
      have st: "step e a = after_agent ?e1 False" using r(3) w nw by simp
      show ?thesis
      proof (cases "opponent_move ?e1")
        case (Pair res e2)
        show ?thesis
        proof (cases res)
          case (Inl err)
          then show ?thesis using Pair nw nf st f1 by (simp add: after_agent_def)
        next
          case (Inr rc)
          obtain orow ocol where rc: "rc = (orow, ocol)" by (cases rc)
          have o: "opponent_move ?e1 = (Inr (orow, ocol), e2)" using Pair Inr rc by simp
          show ?thesis using opp[OF o nf] nw nf o st by (simp split: if_splits)
        qed
      qed
    qed
  qed
  then show "\<exists>r. lowest_empty_row e (nat a) r \<and>
        (let e1 = drop_at e r (nat a) 1 in
         if rescan_win e1 r (nat a)
         then step e a = (Inr \<lparr>obs = get_observation e1 1, reward = 1,
                               terminated = True, truncated = False\<rparr>, e1)
         else if board_full (board e1)
         then step e a = (Inr \<lparr>obs = get_observation e1 1, reward = 0,
                               terminated = True, truncated = False\<rparr>, e1)
         else (case opponent_move e1 of
                 (Inl err, e2) \<Rightarrow> step e a = (Inl err, e2)
               | (Inr (orow, ocol), e2) \<Rightarrow>
                   if rescan_win e2 orow (nat ocol)
                   then step e a = (Inr \<lparr>obs = get_observation e2 1, reward = - 1,
                                         terminated = True, truncated = False\<rparr>, e2)
                   else if board_full (board e2)
                   then step e a = (Inr \<lparr>obs = get_observation e2 1, reward = 0,
                                         terminated = True, truncated = False\<rparr>, e2)
                   else step e a = (Inr \<lparr>obs = get_observation e2 1, reward = 0,
                                         terminated = False, truncated = False\<rparr>, e2)))"
    using r(1) unfolding Let_def by blast
qed

theorem step_rewards_witness:
  "reachable (snd (step (snd (reset (game 2 2 2 (always 0) [] 0) (always 1) False)) 0))
   \<and> snd (step (snd (reset (game 2 2 2 (always 0) [] 0) (always 1) False)) 0)
       = game 2 2 2 (always 1) [[1, - 1], [0, 0]] 2
   \<and> lowest_empty_row (game 2 2 2 (always 1) [[1, - 1], [0, 0]] 2) 0 1
   \<and> rescan_win (game 2 2 2 (always 1) [[1, - 1], [1, 0]] 3) 1 0
   \<and> step (game 2 2 2 (always 1) [[1, - 1], [0, 0]] 2) 0
       = (Inr \<lparr>obs = ([[True, False], [True, False]], [[False, True], [False, False]]),
               reward = 1, terminated = True, truncated = False\<rparr>,
          game 2 2 2 (always 1) [[1, - 1], [1, 0]] 3)"
proof -
  let ?s = "game 2 2 2 (always 1) [[1, - 1], [0, 0]] 2"
  let ?t = "game 2 2 2 (always 1) [[1, - 1], [1, 0]] 3"
  have eq: "snd (step (snd (reset (game 2 2 2 (always 0) [] 0) (always 1) False)) 0) = ?s"
    by (simp add: run_defs eval_nat_numeral)
  have "reachable (snd (step (snd (reset (game 2 2 2 (always 0) [] 0) (always 1) False)) 0))"
    by (intro reach_step reach_reset)
  then have r: "reachable ?s" using eq by simp
  have h: "0 < rows ?s" "contains (columns ?s) 0" "board ?s ! (rows ?s - 1) ! nat 0 = 0"
    by (simp_all add: game_def contains_def)
  have l: "lowest_empty_row ?s 0 1" by (simp add: game_def lowest_empty_row_def)
  have d: "drop_at ?s 1 0 1 = ?t" by (simp add: game_def drop_at_def setitem_def)
  have st: "step ?s 0 = (Inr \<lparr>obs = ([[True, False], [True, False]], [[False, True], [False, False]]),
               reward = 1, terminated = True, truncated = False\<rparr>, ?t)"
    by (simp add: run_defs eval_nat_numeral)
  from step_rewards[of ?s 0] r h obtain r0 where r0: "lowest_empty_row ?s (nat 0) r0"
    "let e1 = drop_at ?s r0 (nat 0) 1 in
         if rescan_win e1 r0 (nat 0)
         then step ?s 0 = (Inr \<lparr>obs = get_observation e1 1, reward = 1,
                               terminated = True, truncated = False\<rparr>, e1)
         else if board_full (board e1)
         then step ?s 0 = (Inr \<lparr>obs = get_observation e1 1, reward = 0,
                               terminated = True, truncated = False\<rparr>, e1)
         else (case opponent_move e1 of
                 (Inl err, e2) \<Rightarrow> step ?s 0 = (Inl err, e2)
               | (Inr (orow, ocol), e2) \<Rightarrow>
                   if rescan_win e2 orow (nat ocol)
                   then step ?s 0 = (Inr \<lparr>obs = get_observation e2 1, reward = - 1,
                                         terminated = True, truncated = False\<rparr>, e2)
                   else if board_full (board e2)
                   then step ?s 0 = (Inr \<lparr>obs = get_observation e2 1, reward = 0,
                                         terminated = True, truncated = False\<rparr>, e2)
                   else step ?s 0 = (Inr \<lparr>obs = get_observation e2 1, reward = 0,
                                         terminated = False, truncated = False\<rparr>, e2))"
    by blast
  have "r0 = 1" using r0(1) l by (simp add: lowest_empty_row_unique)
  then have w: "rescan_win ?t 1 0"
    using r0(2) d st unfolding Let_def
    by (auto split: if_splits prod.splits sum.splits)
  show ?thesis using r eq l w st by simp
qed

text \<open>
  C3, as the code has it. The source keeps no record that an episode has ended: \<open>step\<close>
  looks at the action only. On a grid with at least one row it raises
  \<open>ValueError("invalid action")\<close> exactly when the action is outside \<open>[0, columns)\<close> or
  the top cell of its column is occupied, and then the state is unchanged. So once the
  board is full (a draw, or a win on the last cell) every action fails; after a win that
  leaves the column of the action open, the move is applied.
\<close>

theorem step_invalid_action_iff:
  assumes "grid_ok e" "0 < rows e"
  shows "(fst (step e a) = Inl InvalidAction
          \<longleftrightarrow> \<not> contains (columns e) a \<or> board e ! (rows e - 1) ! nat a \<noteq> 0)
    \<and> (\<not> contains (columns e) a \<or> board e ! (rows e - 1) ! nat a \<noteq> 0
          \<longrightarrow> step e a = (Inl InvalidAction, e))
    \<and> (board_full (board e) \<longrightarrow> step e a = (Inl InvalidAction, e))"
proof -
  have bad: "step e a = (Inl InvalidAction, e)"
    if "\<not> contains (columns e) a \<or> board e ! (rows e - 1) ! nat a \<noteq> 0"
    using that assms step_out_of_range[of e a] step_column_full[of e a] by blast
  have good: "fst (step e a) \<noteq> Inl InvalidAction"
    if legal: "contains (columns e) a" "board e ! (rows e - 1) ! nat a = 0"
  proof -
    obtain r w where r: "step e a = after_agent (drop_at e r (nat a) 1) w"
      using step_legal[OF assms legal] by blast
    show ?thesis
    proof
      assume "fst (step e a) = Inl InvalidAction"
      then obtain e' where "after_agent (drop_at e r (nat a) 1) w = (Inl InvalidAction, e')"
        using r by (metis prod.collapse)
      from after_agent_errors[OF grid_ok_drop_at[OF assms(1)] this] show False by simp
    qed
  qed
  have full: "step e a = (Inl InvalidAction, e)" if bf: "board_full (board e)"
  proof (cases "contains (columns e) a")
    case True
    then have "nat a < columns e" by (auto simp: contains_def)
    then show ?thesis using bad board_full_top[OF assms bf] by blast
  next
    case False
    then show ?thesis using bad by blast
  qed
  show ?thesis using bad good full by auto
qed

theorem step_invalid_action_iff_witness:
  "grid_ok (game 2 2 2 (always 0) [[1, - 1], [- 1, 1]] 4)
   \<and> board_full [[1, - 1], [- 1, 1]]
   \<and> step (game 2 2 2 (always 0) [[1, - 1], [- 1, 1]] 4) 1
       = (Inl InvalidAction, game 2 2 2 (always 0) [[1, - 1], [- 1, 1]] 4)"
proof -
  let ?g = "game 2 2 2 (always 0) [[1, - 1], [- 1, 1]] 4"
  have g: "grid_ok ?g" by (simp add: game_def grid_ok_def)
  have r: "0 < rows ?g" by (simp add: game_def)
  have f: "board_full (board ?g)" by (simp add: game_def board_full_def)
  show ?thesis using step_invalid_action_iff[OF g r, of 1] g f by (simp add: game_def)
qed

text \<open>
  The claim as the spec states it fails: on a \<open>2 \<times> 2\<close> board with \<open>win_length = 2\<close> and an
  opponent that always plays column \<open>1\<close>, the agent's second move in column \<open>0\<close> wins
  (\<open>terminated\<close> is true), and the next \<open>step\<close>, with action \<open>1\<close>, is carried out.
\<close>

theorem step_after_win_counterexample:
  "snd (step (snd (reset (game 2 2 2 (always 0) [] 0) (always 1) False)) 0)
     = game 2 2 2 (always 1) [[1, - 1], [0, 0]] 2
   \<and> step (game 2 2 2 (always 1) [[1, - 1], [0, 0]] 2) 0
     = (Inr (result (game 2 2 2 (always 1) [[1, - 1], [1, 0]] 3) 1 True),
        game 2 2 2 (always 1) [[1, - 1], [1, 0]] 3)
   \<and> step (game 2 2 2 (always 1) [[1, - 1], [1, 0]] 3) 1
     = (Inr (result (game 2 2 2 (always 1) [[1, - 1], [1, 1]] 4) 1 True),
        game 2 2 2 (always 1) [[1, - 1], [1, 1]] 4)"
  by (simp add: run_defs eval_nat_numeral)

text \<open>
  C4. Let \<open>step\<close> get as far as the opponent's turn: the action is legal, the agent's
  piece lands at row \<open>r\<close> leaving the state \<open>e1\<close>, it neither wins nor fills the board.
  If the column the opponent then returns is outside \<open>[0, columns)\<close>, or the top cell of
  that column is occupied (as it is when the column is full), \<open>_opponent_move\<close> and with
  it \<open>step\<close> raise \<open>ValueError("invalid opponent move: ...")\<close>; no other column is
  tried, and the state left behind is \<open>e1\<close> with the opponent as the call left it: the
  grid and \<open>num_moves\<close> are those of \<open>e1\<close>, the agent's piece in place.
\<close>

theorem illegal_opponent_move_propagates:
  assumes "grid_ok e" "0 < rows e"
    and "contains (columns e) a" "board e ! (rows e - 1) ! nat a = 0"
    and "lowest_empty_row e (nat a) r" "e1 = drop_at e r (nat a) 1"
    and "is_win e1 r (nat a) = Inr False"
    and "num_moves e1 \<noteq> int (rows e) * int (columns e)"
    and "call (opponent e1) (get_observation e1 (- 1)) (map (\<lambda>p. p = 0) (board e1 ! (rows e - 1)))
           = (col, q)"
    and "\<not> contains (columns e) col \<or> board e1 ! (rows e - 1) ! nat col \<noteq> 0"
  shows "opponent_move e1 = (Inl (InvalidOpponentMove col), e1\<lparr>opponent := q\<rparr>)
    \<and> step e a = (Inl (InvalidOpponentMove col), e1\<lparr>opponent := q\<rparr>)
    \<and> board (snd (step e a)) = board e1 \<and> num_moves (snd (step e a)) = num_moves e1
    \<and> board e1 = (board e)[r := (board e ! r)[nat a := 1]]
    \<and> num_moves e1 = num_moves e + 1"
proof -
  have g1: "grid_ok e1" unfolding assms(6) using assms(1) by (rule grid_ok_drop_at)
  have f1: "rows e1 = rows e" "columns e1 = columns e" unfolding assms(6) by simp_all
  have o: "opponent_move e1 = (Inl (InvalidOpponentMove col), e1\<lparr>opponent := q\<rparr>)"
    using opponent_move_illegal[of e1 col q] g1 f1 assms(2,9,10) by simp
  obtain r' w where s: "lowest_empty_row e (nat a) r'"
    "is_win (drop_at e r' (nat a) 1) r' (nat a) = Inr w"
    "step e a = after_agent (drop_at e r' (nat a) 1) w"
    using step_legal[OF assms(1-4)] by blast
  have "r' = r" using s(1) assms(5) by (rule lowest_empty_row_unique)
  then have "step e a = after_agent e1 False" using s(2,3) assms(6,7) by simp
  then have st: "step e a = (Inl (InvalidOpponentMove col), e1\<lparr>opponent := q\<rparr>)"
    using o assms(8) f1 by (simp add: after_agent_def)
  show ?thesis using o st unfolding assms(6) by (simp add: setitem_def)
qed

theorem illegal_opponent_move_propagates_witness:
  "grid_ok (game 2 2 2 (always 7) [[0, 0], [0, 0]] 0)
   \<and> lowest_empty_row (game 2 2 2 (always 7) [[0, 0], [0, 0]] 0) 0 0
   \<and> is_win (game 2 2 2 (always 7) [[1, 0], [0, 0]] 1) 0 0 = Inr False
   \<and> fst (call (always 7) ([[False, False], [False, False]], [[True, False], [False, False]])
        [True, True]) = 7
   \<and> step (game 2 2 2 (always 7) [[0, 0], [0, 0]] 0) 0
       = (Inl (InvalidOpponentMove 7), game 2 2 2 (always 7) [[1, 0], [0, 0]] 1)"
proof -
  let ?e = "game 2 2 2 (always 7) [[0, 0], [0, 0]] 0"
  let ?e1 = "game 2 2 2 (always 7) [[1, 0], [0, 0]] 1"
  have g: "grid_ok ?e" by (simp add: game_def grid_ok_def)
  have r: "0 < rows ?e" by (simp add: game_def)
  have c: "contains (columns ?e) 0" by (simp add: game_def contains_def)
  have t: "board ?e ! (rows ?e - 1) ! nat 0 = 0" by (simp add: game_def)
  have l: "lowest_empty_row ?e (nat 0) 0" by (simp add: game_def lowest_empty_row_def)
  have d: "?e1 = drop_at ?e 0 (nat 0) 1" by (simp add: game_def drop_at_def setitem_def)
  have w: "is_win ?e1 0 (nat 0) = Inr False"
    by (simp add: run_defs eval_nat_numeral)
  have n: "num_moves ?e1 \<noteq> int (rows ?e) * int (columns ?e)" by (simp add: game_def)
  have k: "call (opponent ?e1) (get_observation ?e1 (- 1)) (map (\<lambda>p. p = 0) (board ?e1 ! (rows ?e - 1)))
    = (7, always 7)" by (simp add: game_def)
  have i: "\<not> contains (columns ?e) 7 \<or> board ?e1 ! (rows ?e - 1) ! nat 7 \<noteq> 0"
    by (simp add: game_def contains_def)
  have s: "step ?e 0 = (Inl (InvalidOpponentMove 7), ?e1\<lparr>opponent := always 7\<rparr>)"
    using illegal_opponent_move_propagates[OF g r c t l d w n k i] by simp
  have o: "fst (call (always 7) ([[False, False], [False, False]], [[True, False], [False, False]])
        [True, True]) = 7" by simp
  show ?thesis using g l w s o by (simp add: game_def)
qed

text \<open>
  C5. In every state reachable from \<open>reset\<close> by the public operations, the number of
  non-empty cells of the grid equals \<open>num_moves\<close>; and the board is full exactly when
  \<open>num_moves\<close> is \<open>rows * columns\<close>, the test \<open>step\<close> uses for a draw.
\<close>

theorem occupied_eq_num_moves:
  assumes "reachable e"
  shows "int (occupied (board e)) = num_moves e
    \<and> (board_full (board e) \<longleftrightarrow> num_moves e = int (rows e) * int (columns e))"
  using reachable_state_ok[OF assms] full_iff_count[of e] by (simp add: state_ok_def)

theorem occupied_eq_num_moves_witness:
  "reachable (snd (reset (game 2 2 2 (always 0) [] 7) (always 1) True))
   \<and> board (snd (reset (game 2 2 2 (always 0) [] 7) (always 1) True)) = [[0, - 1], [0, 0]]
   \<and> occupied [[0, - 1], [0, 0]] = 1
   \<and> num_moves (snd (reset (game 2 2 2 (always 0) [] 7) (always 1) True)) = 1"
proof -
  let ?s = "snd (reset (game 2 2 2 (always 0) [] 7) (always 1) True)"
  have r: "reachable ?s" by (rule reach_reset)
  have b: "board ?s = [[0, - 1], [0, 0]]"
    by (simp add: run_defs eval_nat_numeral)
  show ?thesis using occupied_eq_num_moves[OF r] r b by (simp add: occupied_def)
qed

text \<open>
  C6. For a column \<open>c\<close> of the grid, \<open>_move\<close> either raises
  \<open>ValueError("invalid move")\<close>, and then every cell of the column is non-empty, or
  returns a row \<open>r\<close>: the lowest empty row of the column, where the piece now is, every
  other cell being as before and \<open>num_moves\<close> one more. A column with no empty cell
  always fails, in \<open>_move\<close> and already in the guard of \<open>step\<close>, which also refuses
  every action outside \<open>[0, columns)\<close> with \<open>ValueError("invalid action")\<close>, the state
  unchanged.
\<close>

theorem move_places_lowest:
  assumes "grid_ok e" "c < columns e"
  shows "(case move e (int c) piece of
            (Inl err, e') \<Rightarrow> err = InvalidMove \<and> (\<forall>r<rows e. board e ! r ! c \<noteq> 0)
          | (Inr r, e') \<Rightarrow>
              lowest_empty_row e c r
              \<and> board e' ! r ! c = piece
              \<and> (\<forall>i j. (i, j) \<noteq> (r, c) \<longrightarrow> board e' ! i ! j = board e ! i ! j)
              \<and> num_moves e' = num_moves e + 1
              \<and> e' = e\<lparr>num_moves := num_moves e + 1, board := (board e)[r := (board e ! r)[c := piece]]\<rparr>)
    \<and> ((\<forall>r<rows e. board e ! r ! c \<noteq> 0) \<longrightarrow>
          fst (move e (int c) piece) = Inl InvalidMove
          \<and> (0 < rows e \<longrightarrow> step e (int c) = (Inl InvalidAction, e)))
    \<and> (\<forall>a. \<not> contains (columns e) a \<longrightarrow> step e a = (Inl InvalidAction, e))"
proof (intro conjI impI allI)
  show "case move e (int c) piece of
            (Inl err, e') \<Rightarrow> err = InvalidMove \<and> (\<forall>r<rows e. board e ! r ! c \<noteq> 0)
          | (Inr r, e') \<Rightarrow>
              lowest_empty_row e c r
              \<and> board e' ! r ! c = piece
              \<and> (\<forall>i j. (i, j) \<noteq> (r, c) \<longrightarrow> board e' ! i ! j = board e ! i ! j)
              \<and> num_moves e' = num_moves e + 1
              \<and> e' = e\<lparr>num_moves := num_moves e + 1, board := (board e)[r := (board e ! r)[c := piece]]\<rparr>"
  proof (cases "\<forall>r<rows e. board e ! r ! c \<noteq> 0")
    case True
    then show ?thesis using move_full[OF assms, of piece] by simp
  next
    case False
    then obtain t where "t < rows e" "board e ! t ! c = 0" by blast
    then obtain r where r: "r < rows e" "board e ! r ! c = 0" "\<forall>r'<r. board e ! r' ! c \<noteq> 0"
      using lowest_empty[of e t c] by blast
    then have l: "lowest_empty_row e c r" by (simp add: lowest_empty_row_def)
    have m: "move e (int c) piece = (Inr r, drop_at e r c piece)"
      using assms l by (intro move_drop_at)
    have b: "r < length (board e)" "c < length (board e ! r)"
      using assms r(1) by (simp_all add: grid_ok_def)
    show ?thesis using m l b by (simp add: setitem_nth) (simp add: drop_at_def setitem_def)
  qed
next
  assume "\<forall>r<rows e. board e ! r ! c \<noteq> 0"
  then show "fst (move e (int c) piece) = Inl InvalidMove"
    using move_full[OF assms, of piece] by simp
next
  assume f: "\<forall>r<rows e. board e ! r ! c \<noteq> 0" and p: "0 < rows e"
  have "contains (columns e) (int c)" using assms(2) by (simp add: contains_def)
  then show "step e (int c) = (Inl InvalidAction, e)"
    using f p assms by (intro step_column_full) simp_all
next
  fix a assume "\<not> contains (columns e) a"
  then show "step e a = (Inl InvalidAction, e)" by (rule step_out_of_range)
qed

theorem move_places_lowest_witness:
  "grid_ok (game 2 2 2 (always 0) [[1, - 1], [0, 0]] 2)
   \<and> move (game 2 2 2 (always 0) [[1, - 1], [0, 0]] 2) 1 1
       = (Inr 1, game 2 2 2 (always 0) [[1, - 1], [0, 1]] 3)"
proof -
  let ?g = "game 2 2 2 (always 0) [[1, - 1], [0, 0]] 2"
  have g: "grid_ok ?g" by (simp add: game_def grid_ok_def)
  have c: "(1::nat) < columns ?g" by (simp add: game_def)
  have m: "move ?g 1 1 = (Inr 1, game 2 2 2 (always 0) [[1, - 1], [0, 1]] 3)"
    by (simp add: run_defs eval_nat_numeral)
  show ?thesis using move_places_lowest[OF g c, of 1] g m by simp
qed

text \<open>
  C7, as the code has it. \<open>reset\<close> overwrites the opponent, the grid and \<open>num_moves\<close>, so
  its outcome does not depend on what they were: the grid is all empty and \<open>num_moves\<close>
  is \<open>0\<close>. If the draw is false that is the state returned. If it is true, the opponent
  is asked once through \<open>_opponent_move\<close>, the routine \<open>step\<close> uses, with its check of the
  column: a refused column raises and leaves the grid empty; an accepted one puts one
  piece \<open>-1\<close> on the bottom row and makes \<open>num_moves\<close> \<open>1\<close>. \<open>reset\<close> calls no \<open>_is_win\<close> on
  that move; with \<open>win_length\<close> at least \<open>2\<close> the check would be false.
\<close>

theorem reset_clears_then_opens:
  "reset (e\<lparr>opponent := p, board := b, num_moves := n\<rparr>) opp coin = reset e opp coin
   \<and> reset e opp False = (Inr (get_observation (cleared e opp) 1), cleared e opp)
   \<and> reset e opp True =
       (case opponent_move (cleared e opp) of
          (Inl err, e2) \<Rightarrow> (Inl err, e2)
        | (Inr rc, e2) \<Rightarrow> (Inr (get_observation e2 1), e2))
   \<and> board (cleared e opp) = replicate (rows e) (replicate (columns e) 0)
   \<and> num_moves (cleared e opp) = 0 \<and> occupied (board (cleared e opp)) = 0
   \<and> (case reset e opp coin of
         (Inl err, e') \<Rightarrow> coin \<and> board e' = board (cleared e opp) \<and> num_moves e' = 0
       | (Inr ob, e') \<Rightarrow>
           ob = get_observation e' 1
           \<and> (if coin
              then \<exists>col. contains (columns e) col \<and> 0 < rows e
                     \<and> board e' = setitem (board (cleared e opp)) 0 (nat col) (- 1)
                     \<and> num_moves e' = 1 \<and> occupied (board e') = 1
                     \<and> (2 \<le> win_length e \<longrightarrow> is_win e' 0 (nat col) = Inr False)
              else board e' = board (cleared e opp) \<and> num_moves e' = 0))"
proof (intro conjI)
  show "reset (e\<lparr>opponent := p, board := b, num_moves := n\<rparr>) opp coin = reset e opp coin"
    by (simp add: reset_def)
  show "reset e opp False = (Inr (get_observation (cleared e opp) 1), cleared e opp)"
    by (simp add: reset_cleared)
  show "reset e opp True =
       (case opponent_move (cleared e opp) of
          (Inl err, e2) \<Rightarrow> (Inl err, e2)
        | (Inr rc, e2) \<Rightarrow> (Inr (get_observation e2 1), e2))"
    by (simp add: reset_cleared)
  show "board (cleared e opp) = replicate (rows e) (replicate (columns e) 0)"
    "num_moves (cleared e opp) = 0" "occupied (board (cleared e opp)) = 0"
    by simp_all
  show "case reset e opp coin of
         (Inl err, e') \<Rightarrow> coin \<and> board e' = board (cleared e opp) \<and> num_moves e' = 0
       | (Inr ob, e') \<Rightarrow>
           ob = get_observation e' 1
           \<and> (if coin
              then \<exists>col. contains (columns e) col \<and> 0 < rows e
                     \<and> board e' = setitem (board (cleared e opp)) 0 (nat col) (- 1)
                     \<and> num_moves e' = 1 \<and> occupied (board e') = 1
                     \<and> (2 \<le> win_length e \<longrightarrow> is_win e' 0 (nat col) = Inr False)
              else board e' = board (cleared e opp) \<and> num_moves e' = 0)"
  proof (cases coin)
    case False
    then show ?thesis by (simp add: reset_cleared)
  next
    case True
    show ?thesis
    proof (cases "opponent_move (cleared e opp)")
      case (Pair res e2)
      show ?thesis
      proof (cases res)
        case (Inl err)
        then show ?thesis using True Pair opening_refused[of e opp err e2]
          by (simp add: reset_cleared)
      next
        case (Inr rc)
        obtain r col where rc: "rc = (r, col)" by (cases rc)
        have o: "opponent_move (cleared e opp) = (Inr (r, col), e2)" using Pair Inr rc by simp
        from opening_move[OF o] have
          "contains (columns e) col \<and> 0 < rows e
             \<and> board e2 = setitem (board (cleared e opp)) 0 (nat col) (- 1)
             \<and> num_moves e2 = 1 \<and> occupied (board e2) = 1
             \<and> (2 \<le> win_length e \<longrightarrow> is_win e2 0 (nat col) = Inr False)"
          by auto
        then show ?thesis using True o by (auto simp: reset_cleared)
      qed
    qed
  qed
qed

theorem reset_clears_then_opens_witness:
  "reset (game 2 2 2 (always 0) [[1, - 1], [1, 0]] 3) (always 1) True
     = (Inr ([[False, False], [False, False]], [[False, True], [False, False]]),
        game 2 2 2 (always 1) [[0, - 1], [0, 0]] 1)
   \<and> reset (game 2 2 2 (always 0) [] 0) (always 1) True
     = reset (game 2 2 2 (always 0) [[1, - 1], [1, 0]] 3) (always 1) True
   \<and> occupied [[0, - 1], [0, 0]] = 1
   \<and> is_win (game 2 2 2 (always 1) [[0, - 1], [0, 0]] 1) 0 1 = Inr False"
proof -
  let ?d = "game 2 2 2 (always 0) [[1, - 1], [1, 0]] 3"
  let ?g = "game 2 2 2 (always 0) [] 0"
  let ?s = "game 2 2 2 (always 1) [[0, - 1], [0, 0]] 1"
  have d: "?d = ?g\<lparr>opponent := always 0, board := [[1, - 1], [1, 0]], num_moves := 3\<rparr>"
    by (simp add: game_def)
  have r: "reset ?d (always 1) True
     = (Inr ([[False, False], [False, False]], [[False, True], [False, False]]), ?s)"
    by (simp add: run_defs eval_nat_numeral)
  note t = reset_clears_then_opens[where e = ?g and p = "always 0" and b = "[[1, - 1], [1, 0]]"
      and n = 3 and opp = "always 1" and coin = True]
  have same: "reset ?g (always 1) True = reset ?d (always 1) True" using t d by simp
  have "\<exists>col. contains (columns ?g) col \<and> board ?s = setitem (board (cleared ?g (always 1))) 0 (nat col) (- 1)
      \<and> (2 \<le> win_length ?g \<longrightarrow> is_win ?s 0 (nat col) = Inr False)"
    using t r same by auto
  then obtain col where col: "contains (columns ?g) col"
    "board ?s = setitem (board (cleared ?g (always 1))) 0 (nat col) (- 1)"
    "2 \<le> win_length ?g \<longrightarrow> is_win ?s 0 (nat col) = Inr False" by blast
  have "col = 0 \<or> col = 1" using col(1) by (auto simp: contains_def game_def)
  then have "nat col = 1" using col(2) by (auto simp: game_def setitem_def eval_nat_numeral)
  then have w: "is_win ?s 0 1 = Inr False" using col(3) by (simp add: game_def)
  show ?thesis using r same w by (simp add: occupied_def)
qed

text \<open>
  The claim as the spec states it fails in its win check: on a \<open>1 \<times> 2\<close> board with
  \<open>win_length = 1\<close> the opponent's opening piece satisfies \<open>_is_win\<close>, the test that after
  an opponent move in \<open>step\<close> ends the episode with reward \<open>-1\<close>. \<open>reset\<close> returns the
  observation all the same, and the agent's next \<open>step\<close> is carried out and rewarded \<open>1\<close>.
\<close>

theorem reset_no_win_check_counterexample:
  "reset (game 1 2 1 (always 0) [] 0) (always 0) True
     = (Inr ([[False, False]], [[True, False]]), game 1 2 1 (always 0) [[- 1, 0]] 1)
   \<and> is_win (game 1 2 1 (always 0) [[- 1, 0]] 1) 0 0 = Inr True
   \<and> step (game 1 2 1 (always 0) [[- 1, 0]] 1) 1
     = (Inr \<lparr>obs = ([[False, True]], [[True, False]]), reward = 1, terminated = True,
             truncated = False\<rparr>,
        game 1 2 1 (always 0) [[- 1, 1]] 2)"
  by (simp add: run_defs eval_nat_numeral)

text \<open>
  C8. In every reachable state and for either viewing player (\<open>1\<close> or \<open>-1\<close>), the two
  planes of the observation have the shape of the grid, no cell is true in both, and the
  number of true cells of the two together is \<open>num_moves\<close>. \<open>_get_observation\<close> assigns
  to nothing: it is a function of the state, and returns no state.
\<close>

theorem observation_planes:
  assumes "reachable e" "player = 1 \<or> player = - 1"
  shows "length (fst (get_observation e player)) = rows e
    \<and> length (snd (get_observation e player)) = rows e
    \<and> (\<forall>i<rows e. length (fst (get_observation e player) ! i) = columns e
                  \<and> length (snd (get_observation e player) ! i) = columns e)
    \<and> (\<forall>i<rows e. \<forall>j<columns e.
          \<not> (fst (get_observation e player) ! i ! j \<and> snd (get_observation e player) ! i ! j))
    \<and> int (count_true (fst (get_observation e player))
           + count_true (snd (get_observation e player))) = num_moves e"
proof -
  have s: "state_ok e" using assms(1) by (rule reachable_state_ok)
  then have g: "length (board e) = rows e" "\<forall>i<rows e. length (board e ! i) = columns e"
    by (simp_all add: state_ok_def grid_ok_def)
  have d: "\<not> (fst (get_observation e player) ! i ! j \<and> snd (get_observation e player) ! i ! j)"
    if "i < rows e" "j < columns e" for i j
    using that g assms(2) by (auto simp: get_observation_def)
  have c: "count_true (fst (get_observation e player)) + count_true (snd (get_observation e player))
    = occupied (board e)"
    using s assms(2) by (simp add: get_observation_def count_true_planes state_ok_def)
  have n: "int (occupied (board e)) = num_moves e" using s by (simp add: state_ok_def)
  show ?thesis using g d c n by (simp add: get_observation_def)
qed

theorem observation_planes_witness:
  "reachable (snd (reset (game 1 2 2 (always 0) [] 0) (always 1) True))
   \<and> get_observation (snd (reset (game 1 2 2 (always 0) [] 0) (always 1) True)) (- 1)
       = ([[False, True]], [[False, False]])
   \<and> count_true [[False, True]] + count_true [[False, False]] = 1
   \<and> num_moves (snd (reset (game 1 2 2 (always 0) [] 0) (always 1) True)) = 1"
proof -
  let ?s = "snd (reset (game 1 2 2 (always 0) [] 0) (always 1) True)"
  have r: "reachable ?s" by (rule reach_reset)
  have s: "?s = game 1 2 2 (always 1) [[0, - 1]] 1"
    by (simp add: run_defs eval_nat_numeral)
  have o: "get_observation ?s (- 1) = ([[False, True]], [[False, False]])"
    unfolding s by (simp add: get_observation_def game_def)
  have n: "num_moves ?s = 1" unfolding s by (simp add: game_def)
  show ?thesis using observation_planes[OF r, of "- 1"] r o n by (simp add: count_true_def)
qed

text \<open>
  C9. On a grid of at least one row, \<open>action_masks\<close> returns a vector of length \<open>columns\<close>
  that is true at \<open>c\<close> exactly when the cell of the top row \<open>rows - 1\<close> in column \<open>c\<close> is
  empty; on a full board it is false everywhere.
\<close>

theorem action_masks_top_row:
  assumes "grid_ok e" "0 < rows e"
  shows "\<exists>m. action_masks e = Inr m \<and> length m = columns e
    \<and> (\<forall>c<columns e. m ! c \<longleftrightarrow> board e ! (rows e - 1) ! c = 0)
    \<and> (board_full (board e) \<longrightarrow> (\<forall>c<columns e. \<not> m ! c))"
proof -
  let ?top = "board e ! (rows e - 1)"
  have len: "length ?top = columns e" using assms by (simp add: grid_ok_def)
  have mem: "?top \<in> set (board e)" using assms by (simp add: grid_ok_def)
  have "\<forall>c<columns e. ?top ! c \<noteq> 0" if "board_full (board e)"
    using that mem len unfolding board_full_def by (metis nth_mem)
  then show ?thesis using len by (simp add: action_masks_ok[OF assms])
qed

theorem action_masks_top_row_witness:
  "grid_ok (game 2 3 2 (always 0) [[1, - 1, 1], [0, - 1, 0]] 4)
   \<and> board (game 2 3 2 (always 0) [[1, - 1, 1], [0, - 1, 0]] 4) ! 1 = [0, - 1, 0]
   \<and> action_masks (game 2 3 2 (always 0) [[1, - 1, 1], [0, - 1, 0]] 4) = Inr [True, False, True]"
proof -
  let ?g = "game 2 3 2 (always 0) [[1, - 1, 1], [0, - 1, 0]] 4"
  have g: "grid_ok ?g" by (simp add: game_def grid_ok_def)
  have r: "0 < rows ?g" by (simp add: game_def)
  have m: "action_masks ?g = Inr [True, False, True]"
    by (simp add: action_masks_def game_def np_index_def)
  show ?thesis using action_masks_top_row[OF g r] g m by (simp add: game_def)
qed

text \<open>
  C10. \<open>_move\<close> on a column of the grid whose cells are all non-empty raises
  \<open>ValueError("invalid move")\<close> after it has incremented \<open>num_moves\<close>: the grid is
  unchanged and \<open>num_moves\<close> is one more than before, hence one more than the number of
  occupied cells when the two agreed. When the top cell of the column is empty \<open>_move\<close>
  succeeds, which is what \<open>step\<close> and \<open>_opponent_move\<close> check first; so neither \<open>step\<close>
  from a reachable state nor \<open>reset\<close> ever raises this error.
\<close>

theorem move_full_column_error:
  "(grid_ok e \<and> c < columns e \<and> (\<forall>r<rows e. board e ! r ! c \<noteq> 0) \<longrightarrow>
      move e (int c) piece = (Inl InvalidMove, e\<lparr>num_moves := num_moves e + 1\<rparr>)
      \<and> board (snd (move e (int c) piece)) = board e
      \<and> num_moves (snd (move e (int c) piece)) = num_moves e + 1
      \<and> (int (occupied (board e)) = num_moves e \<longrightarrow>
           num_moves (snd (move e (int c) piece))
             = int (occupied (board (snd (move e (int c) piece)))) + 1))
   \<and> (grid_ok e \<and> c < columns e \<and> 0 < rows e \<and> board e ! (rows e - 1) ! c = 0 \<longrightarrow>
      (\<exists>r. move e (int c) piece = (Inr r, drop_at e r c piece)))
   \<and> (reachable s \<longrightarrow> fst (step s a) \<noteq> Inl InvalidMove)
   \<and> fst (reset e0 opp coin) \<noteq> Inl InvalidMove"
proof -
  have full: "move e (int c) piece = (Inl InvalidMove, e\<lparr>num_moves := num_moves e + 1\<rparr>)"
    if "grid_ok e \<and> c < columns e \<and> (\<forall>r<rows e. board e ! r ! c \<noteq> 0)"
    using that by (intro move_full) simp_all
  have top: "\<exists>r. move e (int c) piece = (Inr r, drop_at e r c piece)"
    if h: "grid_ok e \<and> c < columns e \<and> 0 < rows e \<and> board e ! (rows e - 1) ! c = 0"
  proof -
    obtain r where "lowest_empty_row e c r" using h top_empty_lowest[of e c] by blast
    then have "move e (int c) piece = (Inr r, drop_at e r c piece)"
      using h by (intro move_drop_at) simp_all
    then show ?thesis ..
  qed
  have st: "fst (step s a) \<noteq> Inl InvalidMove" if "reachable s"
  proof -
    have "grid_ok s" using that reachable_state_ok by (simp add: state_ok_def)
    then show ?thesis by (rule step_not_invalid_move)
  qed
  have rs: "fst (reset e0 opp coin) \<noteq> Inl InvalidMove" by (rule reset_not_invalid_move)
  show ?thesis using full top st rs by auto
qed

theorem move_full_column_error_witness:
  "grid_ok (game 2 2 2 (always 0) [[1, - 1], [- 1, 1]] 4)
   \<and> move (game 2 2 2 (always 0) [[1, - 1], [- 1, 1]] 4) 0 1
       = (Inl InvalidMove, game 2 2 2 (always 0) [[1, - 1], [- 1, 1]] 5)
   \<and> occupied [[1, - 1], [- 1, 1]] = 4
   \<and> reachable (snd (reset (game 2 2 2 (always 0) [] 0) (always 0) False))
   \<and> fst (step (snd (reset (game 2 2 2 (always 0) [] 0) (always 0) False)) 0) \<noteq> Inl InvalidMove"
proof -
  let ?g = "game 2 2 2 (always 0) [[1, - 1], [- 1, 1]] 4"
  let ?s = "snd (reset (game 2 2 2 (always 0) [] 0) (always 0) False)"
  have g: "grid_ok ?g" by (simp add: game_def grid_ok_def)
  have f: "\<forall>r<rows ?g. board ?g ! r ! 0 \<noteq> 0" by (simp add: game_def less_Suc_eq eval_nat_numeral)
  have c: "(0::nat) < columns ?g" by (simp add: game_def)
  have r: "reachable ?s" by (rule reach_reset)
  have m: "move ?g 0 1 = (Inl InvalidMove, ?g\<lparr>num_moves := num_moves ?g + 1\<rparr>)"
    using move_full_column_error[where e = ?g and c = 0 and piece = 1] g f c by simp
  have s: "fst (step ?s 0) \<noteq> Inl InvalidMove"
    using move_full_column_error[where s = ?s and a = 0] r by blast
  show ?thesis using g m r s by (simp add: game_def occupied_def)
qed

end
